(* ===== verification/Prelude.thy ===== *)
theory Prelude
  imports Main "HOL-Library.Word"
begin

text \<open>
  Shared vocabulary of the development: the width of record versions (Go \<open>uint64\<close>), the
  predicate ``strictly ascending by a key'' that states the ordering contracts of the record
  store and its streams, the named collections the component theories fill, and the generic
  list and word lemmas the component proofs share.
\<close>

section \<open>Types and collections\<close>

type_synonym version = "64 word"

text \<open>
  \<open>model_defs\<close> collects the unfolding equations of the non-recursive operations of the
  model; \<open>inv_intros\<close> collects the facts that one operation keeps an invariant.
\<close>

named_theorems model_defs "unfolding equations of the operations of the model"
named_theorems inv_intros "preservation of the components' invariants"

abbreviation ascending :: "('a \<Rightarrow> 'k::linorder) \<Rightarrow> 'a list \<Rightarrow> bool" where
  "ascending f xs \<equiv> sorted_wrt (<) (map f xs)"

section \<open>Strictly ascending lists\<close>

lemma ascending_append:
  "ascending f (xs @ ys) \<longleftrightarrow>
     ascending f xs \<and> ascending f ys \<and> (\<forall>x\<in>set xs. \<forall>y\<in>set ys. f x < f y)"
  by (auto simp: sorted_wrt_append)

lemma ascending_filter:
  "ascending f xs \<Longrightarrow> ascending f (filter P xs)"
  by (induction xs) auto

lemma ascending_distinct:
  "ascending f xs \<Longrightarrow> distinct (map f xs)"
  by (simp add: strict_sorted_iff)

lemma ascending_sort_key:
  "distinct (map f xs) \<Longrightarrow> ascending f (sort_key f xs)"
  by (simp add: strict_sorted_iff distinct_map inj_on_def)

lemma ascending_last_max:
  assumes "ascending f xs" and "x \<in> set xs"
  shows "f x \<le> f (last xs)"
proof -
  from assms(2) obtain ys zs where xs: "xs = ys @ x # zs"
    by (auto simp: in_set_conv_decomp)
  show ?thesis
  proof (cases "zs = []")
    case True
    with xs show ?thesis by simp
  next
    case False
    then have "last zs \<in> set zs" by simp
    with assms(1) xs have "f x < f (last zs)" by (auto simp: sorted_wrt_append)
    with xs False show ?thesis by simp
  qed
qed

lemma ascending_hd_min:
  "ascending f (x # xs) \<Longrightarrow> y \<in> set xs \<Longrightarrow> f x < f y"
  by simp

lemma sort_key_filter_set [simp]:
  "set (sort_key f (filter P xs)) = {x \<in> set xs. P x}"
  by auto

lemma ascending_set_unique:
  "ascending f xs \<Longrightarrow> ascending f ys \<Longrightarrow> set xs = set ys \<Longrightarrow> xs = ys"
proof (induction xs arbitrary: ys)
  case Nil
  then show ?case by simp
next
  case (Cons x xs)
  then obtain y ys' where ys: "ys = y # ys'"
    by (cases ys) auto
  have "x = y"
  proof (rule ccontr)
    assume "x \<noteq> y"
    with Cons.prems ys have "x \<in> set ys'" and "y \<in> set xs" by auto
    with Cons.prems ys show False by fastforce
  qed
  with Cons.prems ys have "set xs = set ys'"
    by fastforce
  with Cons ys \<open>x = y\<close> show ?case by simp
qed

lemma distinct_concat_map:
  "distinct ts \<Longrightarrow> (\<forall>t\<in>set ts. distinct (g t)) \<Longrightarrow>
   (\<forall>t\<in>set ts. \<forall>t'\<in>set ts. t \<noteq> t' \<longrightarrow> set (g t) \<inter> set (g t') = {}) \<Longrightarrow>
   distinct (concat (map g ts))"
  by (induction ts) auto

section \<open>Versions\<close>

text \<open>The store's counter is incremented with the wrap-around of Go's \<open>uint64\<close>.\<close>

lemma version_less_succ [intro]:
  "(v::version) \<noteq> - 1 \<Longrightarrow> w \<le> v \<Longrightarrow> w < v + 1"
  using inc_less_eq_iff by fastforce

lemma version_succ_wrap [simp]:
  "(- 1 :: version) + 1 = 0"
  by simp

lemma version_succ_unat:
  "(v::version) \<noteq> - 1 \<Longrightarrow> unat (v + 1) = Suc (unat v)"
proof -
  assume "v \<noteq> - 1"
  then have "1 + v \<noteq> 0" by (simp add: add_eq_0_iff)
  then have "unat (1 + v) = Suc (unat v)" by (rule unatSuc)
  then show ?thesis by (simp add: add.commute)
qed

end
