(* ===== verification/Records.thy ===== *)
theory Records
  imports Prelude
begin

text \<open>
  The unit exchanged between the record store, its streams and the identity manager:
  Go's \<open>databroker.Record\<close> (\<open>{Type, Id, Version, Data, DeletedAt}\<close>, spec section 3),
  and the protobuf messages the identity manager stores in its \<open>Data\<close> field
  (\<open>directory.Group\<close>, \<open>directory.User\<close>, \<open>session.Session\<close>, \<open>user.User\<close>).
  A record's \<open>Data\<close> is an \<open>Any\<close>: its type URL together with the message; messages
  of other types are kept opaque. A record is well typed (\<open>rec_wt\<close>) when its type and
  id are those of its message.
\<close>

text \<open>
  The messages by their fields: \<open>directory.Group{Id, Name, Email}\<close>,
  \<open>directory.User{Id, DisplayName, Email, GroupIds}\<close>, \<open>session.Session{Id, UserId}\<close>,
  \<open>user.User{Id, Name, Email}\<close>, and any other message as its type URL and bytes.
\<close>

datatype payload =
    PGroup string string string
  | PDirUser string string string "string list"
  | PSession string string
  | PUser string string string
  | POpaque string string

text \<open>
  \<open>protoutil.NewAny(msg).GetTypeUrl()\<close>: the fully qualified message name behind the
  \<open>type.googleapis.com/\<close> prefix; and \<open>msg.GetId()\<close>.
\<close>

fun type_url :: "payload \<Rightarrow> string" where
  "type_url (PGroup _ _ _) = ''type.googleapis.com/directory.Group''"
| "type_url (PDirUser _ _ _ _) = ''type.googleapis.com/directory.User''"
| "type_url (PSession _ _) = ''type.googleapis.com/session.Session''"
| "type_url (PUser _ _ _) = ''type.googleapis.com/user.User''"
| "type_url (POpaque t _) = t"

fun payload_id :: "payload \<Rightarrow> string" where
  "payload_id (PGroup i _ _) = i"
| "payload_id (PDirUser i _ _ _) = i"
| "payload_id (PSession i _) = i"
| "payload_id (PUser i _ _) = i"
| "payload_id (POpaque _ _) = []"

record dbrecord =
  rec_type :: string
  rec_id :: string
  rec_version :: version
  rec_data :: payload
  rec_deleted :: bool

text \<open>
  The key a record is stored under: a collection per type, a record per id in it.
\<close>

definition rec_key :: "dbrecord \<Rightarrow> string \<times> string" where
  "rec_key r = (rec_type r, rec_id r)"

text \<open>
  \<open>mkRecord\<close> of \<open>manager_test.go\<close>: a record carrying the message under its type URL
  and id, at version zero (the store stamps the version on \<open>Put\<close>).
\<close>

definition mkRecord :: "payload \<Rightarrow> dbrecord" where
  "mkRecord p = \<lparr>rec_type = type_url p, rec_id = payload_id p, rec_version = 0, rec_data = p,
                 rec_deleted = False\<rparr>"

text \<open>
  Reads return copies (\<open>dup\<close>, \<open>proto.Clone\<close>, spec section 4.1). Records are values
  here, so a copy is the record itself and the defensive-copy contract (a caller that
  mutates a returned record cannot change the store) holds by construction.
\<close>

text \<open>
  Well-typedness of a record (spec section 3, typed records): its type is the type URL of
  its message and its id the message's id, and a message kept opaque is one of no type
  the identity manager knows (a known type URL always unmarshals to its message).
\<close>

definition known_type_urls :: "string list" where
  "known_type_urls =
     [''type.googleapis.com/directory.Group'', ''type.googleapis.com/directory.User'',
      ''type.googleapis.com/session.Session'', ''type.googleapis.com/user.User'']"

fun msg_wf :: "payload \<Rightarrow> bool" where
  "msg_wf (POpaque t _) \<longleftrightarrow> t \<notin> set known_type_urls"
| "msg_wf _ \<longleftrightarrow> True"

definition rec_wt :: "dbrecord \<Rightarrow> bool" where
  "rec_wt r \<longleftrightarrow> rec_type r = type_url (rec_data r) \<and> rec_id r = payload_id (rec_data r) \<and> msg_wf (rec_data r)"

section \<open>Typing of records\<close>

lemma rec_wt_mkRecord [simp]: "rec_wt (mkRecord p) = msg_wf p"
  by (simp add: rec_wt_def mkRecord_def)

lemma rec_wt_version [simp]: "rec_wt (r\<lparr>rec_version := v\<rparr>) = rec_wt r"
  by (simp add: rec_wt_def)

end
