(* ===== verification/Signal.thy ===== *)
theory Signal
  imports Prelude
begin

text \<open>
  The change notifier (spec sections 4.2 and 9), bound by \<open>backend.onChange.Bind()\<close>
  and released by \<open>backend.onChange.Unbind(changed)\<close> in \<open>src/pkg/storage/inmemory/stream.go\<close>.
  Each subscriber owns a channel of capacity one; a broadcast sends to every bound
  channel without blocking and drops the signal where the channel is already full.
  Channels are kept in an explicit store (\<open>chan_full\<close>, indexed by the handle) apart from
  the set of bound handles, because a channel outlives its unbinding: a token sent before
  \<open>Unbind\<close> is still there for the goroutine that holds the channel.
\<close>

record signal =
  next_chan :: nat
  listeners :: "nat list"
  chan_full :: "nat \<Rightarrow> bool"

text \<open>\<open>Bind\<close>: a fresh, empty channel, registered as a listener.\<close>

definition bind :: "signal \<Rightarrow> nat \<times> signal" where
  "bind s =
     (let c = next_chan s
      in (c, s\<lparr>next_chan := Suc c, listeners := listeners s @ [c],
               chan_full := (chan_full s)(c := False)\<rparr>))"

text \<open>\<open>Unbind\<close>: the channel is no longer sent to; its buffer is left as it is.\<close>

definition unbind :: "nat \<Rightarrow> signal \<Rightarrow> signal" where
  "unbind c s = s\<lparr>listeners := removeAll c (listeners s)\<rparr>"

text \<open>\<open>Broadcast\<close>: \<open>select { case ch <- struct{}{}: default: }\<close> on every listener.\<close>

definition broadcast :: "signal \<Rightarrow> signal" where
  "broadcast s = s\<lparr>chan_full := (\<lambda>c. c \<in> set (listeners s) \<or> chan_full s c)\<rparr>"

text \<open>Well-formedness: handles are distinct and all were handed out.\<close>

definition signal_inv :: "signal \<Rightarrow> bool" where
  "signal_inv s \<longleftrightarrow> distinct (listeners s) \<and> (\<forall>c\<in>set (listeners s). c < next_chan s)"

lemmas signal_defs [model_defs] = bind_def unbind_def broadcast_def

lemma signal_inv_bind [inv_intros]: "signal_inv s \<Longrightarrow> signal_inv (snd (bind s))"
  by (auto simp: signal_inv_def bind_def Let_def)

lemma signal_inv_unbind [inv_intros]: "signal_inv s \<Longrightarrow> signal_inv (unbind c s)"
  by (auto simp: signal_inv_def unbind_def distinct_removeAll)

lemma signal_inv_broadcast [inv_intros]: "signal_inv s \<Longrightarrow> signal_inv (broadcast s)"
  by (simp add: signal_inv_def broadcast_def)

lemma signal_inv_chan_full [simp]: "signal_inv (s\<lparr>chan_full := f\<rparr>) = signal_inv s"
  by (simp add: signal_inv_def)

text \<open>Frame facts used by the stream proofs.\<close>

lemma listeners_broadcast [simp]: "listeners (broadcast s) = listeners s"
  by (simp add: broadcast_def)

lemma next_chan_broadcast [simp]: "next_chan (broadcast s) = next_chan s"
  by (simp add: broadcast_def)

lemma chan_full_broadcast [simp]:
  "chan_full (broadcast s) c \<longleftrightarrow> c \<in> set (listeners s) \<or> chan_full s c"
  by (simp add: broadcast_def)

lemma listeners_unbind [simp]: "listeners (unbind c s) = removeAll c (listeners s)"
  by (simp add: unbind_def)

lemma chan_full_unbind [simp]: "chan_full (unbind c s) = chan_full s"
  by (simp add: unbind_def)

lemma next_chan_unbind [simp]: "next_chan (unbind c s) = next_chan s"
  by (simp add: unbind_def)

lemma bind_fresh:
  "signal_inv s \<Longrightarrow> bind s = (c, s') \<Longrightarrow> c \<notin> set (listeners s)"
  by (auto simp: signal_inv_def bind_def Let_def)

lemma unbind_bind:
  assumes "signal_inv s" and "bind s = (c, s')"
  shows "listeners (unbind c s') = listeners s"
proof -
  from assms have "c \<notin> set (listeners s)" by (rule bind_fresh)
  with assms(2) show ?thesis by (auto simp: bind_def Let_def)
qed

end
