(* ===== verification/Backend.thy ===== *)
theory Backend
  imports Records Signal
begin

text \<open>
  The in-memory record store (\<open>inmemory.Backend\<close>, spec sections 3 and 4.1), the state
  that both streams of \<open>src/pkg/storage/inmemory/stream.go\<close> read: the version counter,
  the map \<open>backend.lookup\<close> from a record type to its collection, the change notifier
  \<open>backend.onChange\<close> and the \<open>backend.closed\<close> flag. The Go map is its key list (in
  the order a \<open>range\<close> visits it) and a lookup function that is empty off the keys.
  A collection holds the latest record of each id, in ascending version order; a deleted
  record stays in it as a tombstone. \<open>Put\<close> assigns \<open>lastVersion + 1\<close> with \<open>uint64\<close>
  wrap-around, replaces the record of the same id and broadcasts on the notifier;
  \<open>getSince\<close> returns every stored record newer than a version, sorted by version;
  \<open>Close\<close> sets the closed flag. The lemmas give the invariant \<open>backend_inv\<close>, what
  \<open>getSince\<close> returns after a \<open>Put\<close>, the point read of a type and id after a
  \<open>Put\<close>.
\<close>

datatype storage_error = ErrStreamClosed | ErrCanceled | ErrBackendClosed

type_synonym collection = "dbrecord list"

definition coll_inv :: "string \<Rightarrow> collection \<Rightarrow> bool" where
  "coll_inv t c \<longleftrightarrow>
     (\<forall>r\<in>set c. rec_type r = t) \<and> distinct (map rec_id c) \<and> ascending rec_version c"

section \<open>The backend\<close>

record backend =
  last_version :: version
  types :: "string list"
  lookup :: "string \<Rightarrow> collection"
  on_change :: signal
  is_closed :: bool

definition new_backend :: backend where
  "new_backend =
     \<lparr>last_version = 0, types = [], lookup = (\<lambda>_. []),
      on_change = \<lparr>next_chan = 0, listeners = [], chan_full = (\<lambda>_. False)\<rparr>, is_closed = False\<rparr>"

text \<open>
  Every stored record, collection by collection (\<open>ListAll\<close>: \<open>co.List()\<close> for each
  collection of \<open>backend.lookup\<close>).
\<close>

definition all_records :: "backend \<Rightarrow> dbrecord list" where
  "all_records b = concat (map (lookup b) (types b))"

definition put :: "dbrecord \<Rightarrow> backend \<Rightarrow> storage_error + version \<times> backend" where
  "put r b =
     (if is_closed b then Inl ErrBackendClosed
      else
        (let v = last_version b + 1;
             r' = r\<lparr>rec_version := v\<rparr>;
             t = rec_type r;
             c = lookup b t
         in Inr (v, b\<lparr>last_version := v,
                     types := (if t \<in> set (types b) then types b else types b @ [t]),
                     lookup := (lookup b)(t := filter (\<lambda>x. rec_id x \<noteq> rec_id r') c @ [r']),
                     on_change := broadcast (on_change b)\<rparr>)))"

text \<open>
  \<open>Close\<close>: the store's \<open>closed\<close> channel is closed. Every later \<open>Put\<close> fails, and the
  streams built over the store (\<open>NewRecordStream(ctx, backend.closed, ..)\<close>) end
  (spec section 7: the only unrecoverable condition).
\<close>

definition close_backend :: "backend \<Rightarrow> backend" where
  "close_backend b = b\<lparr>is_closed := True\<rparr>"

definition get_since :: "version \<Rightarrow> backend \<Rightarrow> dbrecord list" where
  "get_since v b = sort_key rec_version (filter (\<lambda>r. v < rec_version r) (all_records b))"

text \<open>
  The invariant: the keys of the map are distinct and every other type has an empty
  collection; each collection is well formed; versions identify records and none is
  above the counter; the notifier is well formed.
\<close>

definition backend_inv :: "backend \<Rightarrow> bool" where
  "backend_inv b \<longleftrightarrow>
     distinct (types b) \<and> (\<forall>t. t \<notin> set (types b) \<longrightarrow> lookup b t = []) \<and>
     (\<forall>t. coll_inv t (lookup b t)) \<and>
     inj_on rec_version (set (all_records b)) \<and>
     (\<forall>r\<in>set (all_records b). rec_version r \<le> last_version b) \<and>
     signal_inv (on_change b)"

text \<open>Room for one more version before the \<open>uint64\<close> counter wraps.\<close>

definition has_room :: "backend \<Rightarrow> bool" where
  "has_room b \<longleftrightarrow> last_version b \<noteq> - 1"

text \<open>The records a run of \<open>Put\<close>s stores, stamped with the versions after \<open>v\<close>.\<close>

fun stamp :: "version \<Rightarrow> dbrecord list \<Rightarrow> dbrecord list" where
  "stamp v [] = []"
| "stamp v (r # rs) = r\<lparr>rec_version := v + 1\<rparr> # stamp (v + 1) rs"

text \<open>
  The latest record of a type and id (the store's \<open>Get\<close>), and the message it carries
  unless it is a tombstone.
\<close>

definition store_get :: "string \<Rightarrow> string \<Rightarrow> backend \<Rightarrow> dbrecord option" where
  "store_get t i b = find (\<lambda>r. rec_id r = i) (lookup b t)"

definition live_payload :: "string \<Rightarrow> string \<Rightarrow> backend \<Rightarrow> payload option" where
  "live_payload t i b =
     (case store_get t i b of None \<Rightarrow> None | Some r \<Rightarrow> if rec_deleted r then None else Some (rec_data r))"

lemmas backend_defs [model_defs] = put_def get_since_def all_records_def

section \<open>Properties of the store\<close>

lemma backend_inv_new_backend: "backend_inv new_backend"
  by (simp add: backend_inv_def new_backend_def all_records_def coll_inv_def signal_inv_def)

lemma set_all_records:
  "set (all_records b) = (\<Union>t\<in>set (types b). set (lookup b t))"
  by (simp add: all_records_def)

lemma backend_inv_types:
  "backend_inv b \<Longrightarrow> x \<in> set (lookup b t) \<Longrightarrow> rec_type x = t"
  by (auto simp: backend_inv_def coll_inv_def)

lemma backend_inv_in_all:
  "backend_inv b \<Longrightarrow> x \<in> set (lookup b t) \<Longrightarrow> x \<in> set (all_records b)"
  unfolding backend_inv_def set_all_records by (cases "t \<in> set (types b)") auto

lemma distinct_all_records:
  assumes "backend_inv b"
  shows "distinct (all_records b)"
proof -
  have "\<forall>t. distinct (lookup b t)"
    using assms by (auto simp: backend_inv_def coll_inv_def distinct_map)
  moreover have "set (lookup b t) \<inter> set (lookup b t') = {}" if "t \<noteq> t'" for t t'
    using assms that by (auto dest: backend_inv_types)
  ultimately show ?thesis
    using assms by (auto simp: all_records_def backend_inv_def intro!: distinct_concat_map)
qed

lemma distinct_versions:
  "backend_inv b \<Longrightarrow> distinct (map rec_version (all_records b))"
  by (simp add: distinct_map distinct_all_records) (simp add: backend_inv_def)

lemma put_Inr:
  "put r b = Inr (v, b') \<longleftrightarrow>
     \<not> is_closed b \<and> v = last_version b + 1 \<and>
     b' = b\<lparr>last_version := v,
            types := (if rec_type r \<in> set (types b) then types b else types b @ [rec_type r]),
            lookup := (lookup b)(rec_type r :=
               filter (\<lambda>x. rec_id x \<noteq> rec_id r) (lookup b (rec_type r)) @ [r\<lparr>rec_version := v\<rparr>]),
            on_change := broadcast (on_change b)\<rparr>"
  by (auto simp: put_def Let_def)

lemma put_Inl:
  "put r b = Inl e \<longleftrightarrow> is_closed b \<and> e = ErrBackendClosed"
  by (auto simp: put_def Let_def)


lemma put_all_records_set:
  assumes inv: "backend_inv b" and p: "put r b = Inr (v, b')"
  shows "set (all_records b') = {x \<in> set (all_records b). rec_key x \<noteq> rec_key r} \<union> {r\<lparr>rec_version := v\<rparr>}"
proof -
  let ?t = "rec_type r"
  have keys: "rec_key x \<noteq> rec_key r \<longleftrightarrow> (rec_type x \<noteq> ?t \<or> rec_id x \<noteq> rec_id r)" for x
    by (auto simp: rec_key_def)
  from p have b': "set (all_records b') =
      (\<Union>t\<in>set (types b) - {?t}. set (lookup b t)) \<union>
      ({x \<in> set (lookup b ?t). rec_id x \<noteq> rec_id r} \<union> {r\<lparr>rec_version := v\<rparr>})"
    by (auto simp: put_Inr set_all_records split: if_splits)
  show ?thesis
    unfolding b' keys
    using inv by (auto simp: set_all_records dest: backend_inv_types backend_inv_in_all)
qed

lemma coll_inv_put:
  assumes "coll_inv t c" and "rec_type r = t" and "\<forall>x\<in>set c. rec_version x < rec_version r"
    and "rec_id r = i"
  shows "coll_inv t (filter (\<lambda>x. rec_id x \<noteq> i) c @ [r])"
proof -
  have "ascending rec_version (filter (\<lambda>x. rec_id x \<noteq> i) c)"
    using assms(1) by (simp add: coll_inv_def ascending_filter)
  with assms show ?thesis
    by (auto simp: coll_inv_def sorted_wrt_append distinct_map_filter)
qed

lemma put_versions_below:
  assumes "backend_inv b" and "has_room b" and "x \<in> set (all_records b)"
  shows "rec_version x < last_version b + 1"
  using assms by (auto simp: backend_inv_def has_room_def)

lemma put_inv:
  assumes inv: "backend_inv b" and room: "has_room b" and p: "put r b = Inr (v, b')"
  shows "backend_inv b'"
proof -
  let ?r' = "r\<lparr>rec_version := v\<rparr>"
  have v: "v = last_version b + 1" using p by (simp add: put_Inr)
  have below: "\<forall>x\<in>set (all_records b). rec_version x < v"
    using put_versions_below [OF inv room] v by blast
  have coll: "coll_inv t (lookup b' t)" for t
  proof (cases "t = rec_type r")
    case True
    have "\<forall>x\<in>set (lookup b t). rec_version x < v"
      using below backend_inv_in_all [OF inv] by blast
    with inv True p show ?thesis
      by (auto simp: put_Inr backend_inv_def intro!: coll_inv_put)
  next
    case False
    with inv p show ?thesis by (simp add: put_Inr backend_inv_def)
  qed
  have set': "set (all_records b') = {x \<in> set (all_records b). rec_key x \<noteq> rec_key r} \<union> {?r'}"
    using inv p by (rule put_all_records_set)
  have "inj_on rec_version (set (all_records b'))"
    using inv below unfolding set' by (auto simp: backend_inv_def inj_on_def)
  moreover have "\<forall>x\<in>set (all_records b'). rec_version x \<le> v"
    using below unfolding set' by (auto simp: less_imp_le)
  moreover have "distinct (types b') \<and> (\<forall>t. t \<notin> set (types b') \<longrightarrow> lookup b' t = [])"
    using inv p by (auto simp: put_Inr backend_inv_def)
  moreover have "signal_inv (on_change b')"
    using inv p by (auto simp: put_Inr backend_inv_def intro: signal_inv_broadcast)
  ultimately show ?thesis
    using coll p by (simp add: backend_inv_def put_Inr)
qed

lemma put_version:
  "put r b = Inr (v, b') \<Longrightarrow> v = last_version b + 1 \<and> last_version b' = v"
  by (simp add: put_Inr)

lemma get_since_set:
  "set (get_since w b) = {x \<in> set (all_records b). w < rec_version x}"
  by (simp add: get_since_def)

lemma get_since_ascending:
  "backend_inv b \<Longrightarrow> ascending rec_version (get_since w b)"
  unfolding get_since_def
  by (rule ascending_sort_key) (simp add: distinct_versions distinct_map_filter)

lemma get_since_put:
  assumes inv: "backend_inv b" and room: "has_room b" and p: "put r b = Inr (v, b')"
    and w: "w \<le> last_version b"
  shows "get_since w b' = filter (\<lambda>x. rec_key x \<noteq> rec_key r) (get_since w b) @ [r\<lparr>rec_version := v\<rparr>]"
proof (rule ascending_set_unique)
  have v: "v = last_version b + 1" using p by (simp add: put_Inr)
  have below: "\<forall>x\<in>set (all_records b). rec_version x < v"
    using put_versions_below [OF inv room] v by blast
  have "w < v" using room w v by (auto simp: has_room_def)
  show "ascending rec_version (get_since w b')"
    using put_inv [OF inv room p] by (rule get_since_ascending)
  show "ascending rec_version (filter (\<lambda>x. rec_key x \<noteq> rec_key r) (get_since w b) @ [r\<lparr>rec_version := v\<rparr>])"
    using get_since_ascending [OF inv] below
    by (auto simp: sorted_wrt_append ascending_filter get_since_set)
  show "set (get_since w b') = set (filter (\<lambda>x. rec_key x \<noteq> rec_key r) (get_since w b) @ [r\<lparr>rec_version := v\<rparr>])"
    using put_all_records_set [OF inv p] \<open>w < v\<close> by (auto simp: get_since_set)
qed

text \<open>A non-empty \<open>getSince\<close> batch: ascending, exactly the newer records, capped by the counter.\<close>

lemma get_since_batch:
  assumes inv: "backend_inv b" and g: "get_since v b = r # rs"
  shows "ascending rec_version (r # rs)" "set (r # rs) = {x \<in> set (all_records b). v < rec_version x}"
    "\<And>x. x \<in> set (r # rs) \<Longrightarrow> v < rec_version x \<and> rec_version x \<le> rec_version (last (r # rs))"
    "rec_version (last (r # rs)) \<le> last_version b"
proof -
  show asc: "ascending rec_version (r # rs)" using get_since_ascending [OF inv, of v] g by simp
  show gset: "set (r # rs) = {x \<in> set (all_records b). v < rec_version x}" using get_since_set [of v b] g by simp
  show "\<And>x. x \<in> set (r # rs) \<Longrightarrow> v < rec_version x \<and> rec_version x \<le> rec_version (last (r # rs))"
    using gset ascending_last_max [OF asc] by blast
  have "last (r # rs) \<in> set (all_records b)" using gset last_in_set [of "r # rs"] by auto
  then show "rec_version (last (r # rs)) \<le> last_version b" using inv by (simp add: backend_inv_def)
qed

lemma length_stamp [simp]: "length (stamp v rs) = length rs"
  by (induction rs arbitrary: v) simp_all

lemma rec_key_stamp [simp]: "map rec_key (stamp v rs) = map rec_key rs"
  by (induction rs arbitrary: v) (auto simp: rec_key_def)

lemma get_since_last_version:
  "backend_inv b \<Longrightarrow> get_since (last_version b) b = []"
  by (auto simp: get_since_def backend_inv_def filter_empty_conv not_less)

lemma get_since_caught_up:
  assumes "backend_inv b" and "get_since v b = x # xs"
  shows "get_since (rec_version (last (x # xs))) b = []"
proof -
  have asc: "ascending rec_version (x # xs)" using get_since_ascending [OF assms(1), of v] unfolding assms(2) .
  have "\<not> rec_version (last (x # xs)) < rec_version y" if "y \<in> set (all_records b)" for y
  proof
    assume lt: "rec_version (last (x # xs)) < rec_version y"
    have "v < rec_version x" using assms(2) get_since_set [of v b] by (metis list.set_intros(1) mem_Collect_eq)
    moreover have "rec_version x \<le> rec_version (last (x # xs))"
      using ascending_last_max [OF asc] by simp
    ultimately have "y \<in> set (x # xs)"
      using lt that assms(2) get_since_set [of v b] by (metis (mono_tags, lifting) mem_Collect_eq order.strict_trans order.strict_trans1)
    then show False using ascending_last_max [OF asc] lt by (simp add: leD)
  qed
  then show ?thesis by (auto simp: get_since_def filter_empty_conv)
qed

lemma put_is_closed: "put r b = Inr (v, b') \<Longrightarrow> is_closed b' = is_closed b"
  by (simp add: put_Inr)

section \<open>Point reads\<close>

lemma find_filter_weaken: "(\<And>x. P x \<Longrightarrow> Q x) \<Longrightarrow> find P (filter Q xs) = find P xs"
  by (induction xs) auto

lemma find_append_Nil: "find P xs = None \<Longrightarrow> find P (xs @ ys) = find P ys"
  by (induction xs) auto

lemma find_append_Some: "find P xs = Some x \<Longrightarrow> find P (xs @ ys) = Some x"
  by (induction xs) auto

lemma store_get_put:
  assumes "put r b = Inr (v, b')"
  shows "store_get t i b' = (if t = rec_type r \<and> i = rec_id r then Some (r\<lparr>rec_version := v\<rparr>) else store_get t i b)"
proof -
  let ?c = "lookup b (rec_type r)"
  have nf: "find (\<lambda>x. rec_id x = rec_id r) (filter (\<lambda>x. rec_id x \<noteq> rec_id r) ?c) = None"
    by (simp add: find_None_iff)
  have ne: "find (\<lambda>x. rec_id x = i) (filter (\<lambda>x. rec_id x \<noteq> rec_id r) ?c @ [r\<lparr>rec_version := v\<rparr>]) = find (\<lambda>x. rec_id x = i) ?c"
    if "i \<noteq> rec_id r"
  proof -
    have "find (\<lambda>x. rec_id x = i) (filter (\<lambda>x. rec_id x \<noteq> rec_id r) ?c) = find (\<lambda>x. rec_id x = i) ?c"
      using that by (intro find_filter_weaken) auto
    then show ?thesis
      using that by (cases "find (\<lambda>x. rec_id x = i) ?c") (simp_all add: find_append_Nil find_append_Some)
  qed
  show ?thesis
    using assms nf ne by (auto simp: store_get_def put_Inr find_append_Nil)
qed

lemma live_payload_put:
  "put r b = Inr (v, b') \<Longrightarrow>
   live_payload t i b' =
     (if t = rec_type r \<and> i = rec_id r then (if rec_deleted r then None else Some (rec_data r))
      else live_payload t i b)"
  by (simp add: live_payload_def store_get_put)

end
