(* ===== verification/RecordStream.thy ===== *)
theory RecordStream
  imports Backend
begin

text \<open>
  The generator-composed stream \<open>storage.NewRecordStream(ctx, backendClosed, generators,
  onClose)\<close> that both constructors of \<open>src/pkg/storage/inmemory/stream.go\<close> return
  (spec sections 4.3, 5 and 7; the framework itself is not in the repository slice, so it is
  modelled from the spec). A generator is a closure over its own variables: here a function
  of the backend, the \<open>block\<close> flag and the closure's state, returning a record, the
  \<open>ErrStreamDone\<close> step signal, an error, or \<open>GBlock\<close> when it suspends in its
  \<open>select\<close>. \<open>Next\<close> fails on a closed stream or backend, keeps a recorded error,
  fails on a cancelled context, and otherwise tries the generators in order, advancing past
  every one that reports \<open>ErrStreamDone\<close>; the stream ends when none is left.
  \<open>Close\<close> runs \<open>onClose\<close> once.
\<close>

datatype gen_result = GRecord dbrecord | GDone | GErr storage_error | GBlock

type_synonym 's generator = "backend \<Rightarrow> bool \<Rightarrow> 's \<Rightarrow> gen_result \<times> 's"

record 's record_stream =
  generators :: "'s generator list"
  gen_state :: 's
  on_close :: "backend \<Rightarrow> backend"
  stream_closed :: bool
  stream_err :: "storage_error option"
  current :: "dbrecord option"

datatype next_outcome = NextRecord dbrecord | NextFalse | NextBlocked

definition new_record_stream ::
  "'s generator list \<Rightarrow> 's \<Rightarrow> (backend \<Rightarrow> backend) \<Rightarrow> 's record_stream" where
  "new_record_stream gs s0 oc =
     \<lparr>generators = gs, gen_state = s0, on_close = oc, stream_closed = False,
      stream_err = None, current = None\<rparr>"

text \<open>Try the generators in order; one that reports \<open>ErrStreamDone\<close> is dropped.\<close>

fun run_generators ::
  "'s generator list \<Rightarrow> backend \<Rightarrow> bool \<Rightarrow> 's \<Rightarrow> gen_result \<times> 's generator list \<times> 's" where
  "run_generators [] b blk s = (GDone, [], s)"
| "run_generators (g # gs) b blk s =
     (case g b blk s of
        (GDone, s') \<Rightarrow> run_generators gs b blk s'
      | (res, s') \<Rightarrow> (res, g # gs, s'))"

text \<open>What \<open>Next\<close> reports for the generators' result, and the stream it leaves.\<close>

fun finish_next ::
  "gen_result \<times> 's generator list \<times> 's \<Rightarrow> 's record_stream \<Rightarrow> next_outcome \<times> 's record_stream" where
  "finish_next (GRecord r, gs, s) st =
     (NextRecord r, st\<lparr>generators := gs, gen_state := s, current := Some r\<rparr>)"
| "finish_next (GDone, gs, s) st =
     (NextFalse, st\<lparr>generators := gs, gen_state := s, current := None\<rparr>)"
| "finish_next (GErr e, gs, s) st =
     (NextFalse, st\<lparr>generators := gs, gen_state := s, current := None, stream_err := Some e\<rparr>)"
| "finish_next (GBlock, gs, s) st =
     (NextBlocked, st\<lparr>generators := gs, gen_state := s\<rparr>)"

text \<open>\<open>Next(block)\<close>; \<open>cancelled\<close> is whether the stream's context is done.\<close>

definition stream_next ::
  "bool \<Rightarrow> bool \<Rightarrow> backend \<Rightarrow> 's record_stream \<Rightarrow> next_outcome \<times> 's record_stream" where
  "stream_next cancelled blk b st =
     (if stream_closed st \<or> is_closed b then (NextFalse, st\<lparr>stream_err := Some ErrStreamClosed\<rparr>)
      else if stream_err st \<noteq> None then (NextFalse, st)
      else if cancelled then (NextFalse, st\<lparr>stream_err := Some ErrCanceled\<rparr>)
      else finish_next (run_generators (generators st) b blk (gen_state st)) st)"

text \<open>\<open>Close\<close>: the finaliser runs on the first call only (\<open>closeOnce\<close>).\<close>

definition stream_close :: "'s record_stream \<Rightarrow> backend \<Rightarrow> 's record_stream \<times> backend" where
  "stream_close st b =
     (if stream_closed st then (st, b) else (st\<lparr>stream_closed := True\<rparr>, on_close st b))"

lemmas stream_defs [model_defs] = new_record_stream_def stream_next_def stream_close_def

section \<open>Properties of the framework\<close>

lemma run_generators_Nil_result:
  "run_generators gs b blk s = (res, [], s') \<Longrightarrow> res = GDone"
  by (induction gs b blk s rule: run_generators.induct) (auto split: prod.splits gen_result.splits)

lemma stream_next_ended:
  "generators st = [] \<Longrightarrow> stream_next c blk b st = (out, st') \<Longrightarrow> out = NextFalse \<and> generators st' = []"
  by (auto simp: stream_next_def split: if_splits)

lemma stream_close_twice:
  "stream_close st b = (st', b') \<Longrightarrow> stream_close st' b' = (st', b')"
  by (auto simp: stream_close_def split: if_splits)

lemma run_generators_GDone:
  "run_generators gs b blk s = (GDone, gs', s') \<Longrightarrow> gs' = []"
  by (induction gs b blk s rule: run_generators.induct) (auto split: prod.splits gen_result.splits)

end
