(* ===== verification/InMemoryStream.thy ===== *)
theory InMemoryStream
  imports RecordStream
begin

text \<open>
  \<open>src/pkg/storage/inmemory/stream.go\<close>: the two record streams of the in-memory backend.
  \<open>newSyncLatestRecordStream\<close> is a snapshot stream of two generators over one captured
  buffer \<open>ready\<close>: the first copies every collection into the buffer and reports
  \<open>ErrStreamDone\<close>, the second pops the buffer. \<open>newSyncRecordStream\<close> binds a change
  channel and tails the store from a caller-supplied version with one generator over the
  captured \<open>ready\<close>, \<open>recordVersion\<close> and \<open>changed\<close>: pop the buffer, else refill it
  from \<open>getSince\<close>, else report \<open>ErrStreamDone\<close> (non-blocking) or wait in a
  \<open>select\<close> for the context or the change channel and poll again. Its finaliser unbinds
  the channel.
\<close>

section \<open>Snapshot stream\<close>

definition sync_latest_load :: "dbrecord list generator" where
  "sync_latest_load b blk ready =
     (GDone, ready @ concat (map (\<lambda>t. lookup b t) (types b)))"

definition sync_latest_pop :: "dbrecord list generator" where
  "sync_latest_pop b blk ready =
     (case ready of
        [] \<Rightarrow> (GDone, ready)
      | r # rs \<Rightarrow> (GRecord r, rs))"

definition newSyncLatestRecordStream :: "dbrecord list record_stream" where
  "newSyncLatestRecordStream = new_record_stream [sync_latest_load, sync_latest_pop] [] id"

section \<open>Tailing stream\<close>

record sync_state =
  ready :: "dbrecord list"
  record_version :: version
  changed :: nat

text \<open>One pass of the \<open>for\<close> loop up to its \<open>select\<close>: refill the buffer and pop it.\<close>

definition sync_poll :: "sync_state generator" where
  "sync_poll b blk st =
     (case get_since (record_version st) b of
        r # rs \<Rightarrow> (GRecord r, st\<lparr>ready := rs, record_version := rec_version (last (r # rs))\<rparr>)
      | [] \<Rightarrow> (if \<not> blk then GDone else GBlock, st\<lparr>ready := []\<rparr>))"

definition sync_gen :: "sync_state generator" where
  "sync_gen b blk st =
     (case ready st of
        r # rs \<Rightarrow> (GRecord r, st\<lparr>ready := rs\<rparr>)
      | [] \<Rightarrow> sync_poll b blk st)"

text \<open>
  The \<open>select\<close>: the case Go picks among the ready ones, \<open>None\<close> when that case is not
  ready. After a change signal the loop polls again, still in blocking mode.
\<close>

datatype select_case = SelCtxDone | SelChanged

fun sync_select ::
  "select_case \<Rightarrow> bool \<Rightarrow> backend \<Rightarrow> sync_state \<Rightarrow> (gen_result \<times> sync_state \<times> backend) option" where
  "sync_select SelCtxDone cancelled b st =
     (if cancelled then Some (GErr ErrCanceled, st, b) else None)"
| "sync_select SelChanged cancelled b st =
     (let sig = on_change b; c = changed st
      in if \<not> chan_full sig c then None
         else (let b' = b\<lparr>on_change := sig\<lparr>chan_full := (chan_full sig)(c := False)\<rparr>\<rparr>;
                   (res, st') = sync_poll b' True st
               in Some (res, st', b')))"

definition sync_close :: "nat \<Rightarrow> backend \<Rightarrow> backend" where
  "sync_close c b = b\<lparr>on_change := unbind c (on_change b)\<rparr>"

definition newSyncRecordStream :: "backend \<Rightarrow> version \<Rightarrow> sync_state record_stream \<times> backend" where
  "newSyncRecordStream b v =
     (let (c, sig) = bind (on_change b)
      in (new_record_stream [sync_gen] \<lparr>ready = [], record_version = v, changed = c\<rparr> (sync_close c),
          b\<lparr>on_change := sig\<rparr>))"

lemmas inmemory_defs [model_defs] =
  sync_latest_load_def sync_latest_pop_def newSyncLatestRecordStream_def
  sync_poll_def sync_gen_def sync_close_def newSyncRecordStream_def

section \<open>A caller draining a stream\<close>

text \<open>
  \<open>for stream.Next(false) { ... }\<close>: pull without blocking until \<open>Next\<close> reports
  false, at most \<open>n\<close> times, collecting the records.
\<close>

fun drain :: "nat \<Rightarrow> bool \<Rightarrow> backend \<Rightarrow> 's record_stream \<Rightarrow> dbrecord list \<times> 's record_stream" where
  "drain 0 c b st = ([], st)"
| "drain (Suc n) c b st =
     (case stream_next c False b st of
        (NextRecord r, st') \<Rightarrow> (let (rs, st'') = drain n c b st' in (r # rs, st''))
      | (_, st') \<Rightarrow> ([], st'))"

section \<open>Stream predicates\<close>

text \<open>A stream that \<open>Next\<close> would run: open, on an open backend, with no error.\<close>

definition stream_live :: "'s record_stream \<Rightarrow> backend \<Rightarrow> bool" where
  "stream_live st b \<longleftrightarrow> \<not> stream_closed st \<and> \<not> is_closed b \<and> stream_err st = None"

text \<open>
  What the tailing stream has returned (\<open>D\<close>), together with its buffer, is strictly
  ascending by version, lies between the start cursor \<open>v0\<close> and \<open>recordVersion\<close>,
  and contains every stored record in that range; \<open>recordVersion\<close> never passes the
  store's counter.
\<close>

definition cursor_inv :: "version \<Rightarrow> backend \<Rightarrow> dbrecord list \<Rightarrow> sync_state \<Rightarrow> bool" where
  "cursor_inv v0 b D ls \<longleftrightarrow>
     ascending rec_version (D @ ready ls) \<and>
     (\<forall>x\<in>set (D @ ready ls). v0 < rec_version x \<and> rec_version x \<le> record_version ls) \<and>
     v0 \<le> record_version ls \<and> record_version ls \<le> last_version b \<and>
     (\<forall>x\<in>set (all_records b). v0 < rec_version x \<and> rec_version x \<le> record_version ls \<longrightarrow>
        x \<in> set (D @ ready ls))"

section \<open>Properties of the snapshot stream\<close>

lemma stream_next_live:
  "stream_live st b \<Longrightarrow>
   stream_next False blk b st = finish_next (run_generators (generators st) b blk (gen_state st)) st"
  by (simp add: stream_next_def stream_live_def)

lemma stream_live_finish [simp]:
  "stream_live (snd (finish_next (res, gs, s) st)) b \<longleftrightarrow> stream_live st b \<and> (\<forall>e. res \<noteq> GErr e)"
  by (cases res) (auto simp: stream_live_def)

lemma snapshot_pop_next:
  assumes "stream_live st b" and "generators st = [sync_latest_pop]"
  shows "stream_next False blk b st =
     (case gen_state st of
        [] \<Rightarrow> (NextFalse, st\<lparr>generators := [], current := None\<rparr>)
      | r # rs \<Rightarrow> (NextRecord r, st\<lparr>gen_state := rs, current := Some r\<rparr>))"
  using assms by (simp add: stream_next_live sync_latest_pop_def split: list.split)

lemma sync_latest_load_all:
  "sync_latest_load b blk buf = (GDone, buf @ all_records b)"
  by (simp add: sync_latest_load_def all_records_def)

lemma snapshot_first_next:
  assumes "\<not> is_closed b"
  shows "stream_next False blk b newSyncLatestRecordStream =
     (case all_records b of
        [] \<Rightarrow> (NextFalse, newSyncLatestRecordStream\<lparr>generators := [], current := None\<rparr>)
      | r # rs \<Rightarrow> (NextRecord r, newSyncLatestRecordStream\<lparr>generators := [sync_latest_pop],
                                 gen_state := rs, current := Some r\<rparr>))"
  using assms
  by (simp add: stream_next_def newSyncLatestRecordStream_def new_record_stream_def
      sync_latest_load_all sync_latest_pop_def split: list.split)

lemma snapshot_drain_pop:
  assumes "stream_live st b" and "generators st = [sync_latest_pop]" and "length (gen_state st) < n"
  shows "drain n False b st = (gen_state st, st\<lparr>generators := [], gen_state := [], current := None\<rparr>)"
  using assms
proof (induction n arbitrary: st)
  case 0
  then show ?case by simp
next
  case (Suc n)
  show ?case
  proof (cases "gen_state st")
    case Nil
    with Suc.prems show ?thesis by (simp add: snapshot_pop_next)
  next
    case (Cons r rs)
    let ?st' = "st\<lparr>gen_state := rs, current := Some r\<rparr>"
    have "drain n False b ?st' = (rs, ?st'\<lparr>generators := [], gen_state := [], current := None\<rparr>)"
      using Suc.prems Cons Suc.IH [of ?st'] by (simp add: stream_live_def)
    with Suc.prems Cons show ?thesis by (simp add: snapshot_pop_next)
  qed
qed

section \<open>The tailing stream's cursor\<close>

lemma cursor_invI:
  assumes "ascending rec_version (D @ ready ls)"
    and "\<And>x. x \<in> set (D @ ready ls) \<Longrightarrow> v0 < rec_version x \<and> rec_version x \<le> record_version ls"
    and "v0 \<le> record_version ls" and "record_version ls \<le> last_version b"
    and "\<And>x. x \<in> set (all_records b) \<Longrightarrow> v0 < rec_version x \<Longrightarrow> rec_version x \<le> record_version ls \<Longrightarrow>
           x \<in> set (D @ ready ls)"
  shows "cursor_inv v0 b D ls"
  using assms unfolding cursor_inv_def by blast

lemma cursor_invD:
  assumes "cursor_inv v0 b D ls"
  shows cursor_inv_asc: "ascending rec_version (D @ ready ls)"
    and cursor_inv_bounds: "x \<in> set (D @ ready ls) \<Longrightarrow> v0 < rec_version x \<and> rec_version x \<le> record_version ls"
    and cursor_inv_start: "v0 \<le> record_version ls"
    and cursor_inv_last: "record_version ls \<le> last_version b"
    and cursor_inv_complete: "x \<in> set (all_records b) \<Longrightarrow> v0 < rec_version x \<Longrightarrow>
           rec_version x \<le> record_version ls \<Longrightarrow> x \<in> set (D @ ready ls)"
  using assms unfolding cursor_inv_def by blast+

lemma cursor_inv_init:
  "v0 \<le> last_version b \<Longrightarrow> cursor_inv v0 b [] \<lparr>ready = [], record_version = v0, changed = c\<rparr>"
  by (rule cursor_invI) auto

lemma cursor_inv_cong:
  assumes "cursor_inv v0 b D ls" and "D' @ ready ls' = D @ ready ls"
    and "record_version ls' = record_version ls"
  shows "cursor_inv v0 b D' ls'"
  using assms(1) unfolding cursor_inv_def assms(2,3) .

lemma cursor_inv_pop:
  "cursor_inv v0 b D ls \<Longrightarrow> ready ls = r # rs \<Longrightarrow> cursor_inv v0 b (D @ [r]) (ls\<lparr>ready := rs\<rparr>)"
  by (erule cursor_inv_cong) simp_all

lemma cursor_inv_poll:
  assumes inv: "backend_inv b" and c: "cursor_inv v0 b D ls" and r: "ready ls = []"
    and g: "get_since (record_version ls) b = r # rs"
  shows "cursor_inv v0 b (D @ [r]) (ls\<lparr>ready := rs, record_version := rec_version (last (r # rs))\<rparr>)"
proof -
  let ?rv = "record_version ls" and ?G = "r # rs"
  let ?top = "rec_version (last ?G)"
  note G = get_since_batch [OF inv g]
  have rv_le: "?rv \<le> ?top" using G(3) [of r] by (meson list.set_intros(1) less_imp_le order_trans)
  have DR: "D @ ready ls = D" using r by simp
  have d_le: "\<And>x. x \<in> set D \<Longrightarrow> v0 < rec_version x \<and> rec_version x \<le> ?rv"
    using cursor_inv_bounds [OF c] DR by metis
  have v0_rv: "v0 \<le> ?rv" by (rule cursor_inv_start [OF c])
  let ?ls' = "ls\<lparr>ready := rs, record_version := ?top\<rparr>"
  have eqs: "(D @ [r]) @ ready ?ls' = D @ ?G" "record_version ?ls' = ?top" by simp_all
  show ?thesis
  proof (rule cursor_invI, unfold eqs)
    have "ascending rec_version D" using cursor_inv_asc [OF c] DR by metis
    moreover have "\<forall>x\<in>set D. \<forall>y\<in>set ?G. rec_version x < rec_version y"
      using d_le G(3) by (blast intro: order_le_less_trans)
    ultimately show "ascending rec_version (D @ ?G)"
      using G(1) by (simp only: ascending_append)
  next
    fix x assume "x \<in> set (D @ ?G)"
    then consider "x \<in> set D" | "x \<in> set ?G" by auto
    then show "v0 < rec_version x \<and> rec_version x \<le> ?top"
    proof cases
      case 1
      with d_le rv_le show ?thesis by (blast intro: order_trans)
    next
      case 2
      with G(3) v0_rv show ?thesis by (blast intro: order_le_less_trans)
    qed
  next
    show "v0 \<le> ?top" using v0_rv rv_le by (rule order_trans)
  next
    show "?top \<le> last_version b" by (rule G(4))
  next
    fix x assume x: "x \<in> set (all_records b)" and "v0 < rec_version x" and le: "rec_version x \<le> ?top"
    show "x \<in> set (D @ ?G)"
    proof (cases "rec_version x \<le> ?rv")
      case True
      with x \<open>v0 < rec_version x\<close> have "x \<in> set (D @ ready ls)" by (rule cursor_inv_complete [OF c])
      with DR show ?thesis by simp
    next
      case False
      with x G(2) show ?thesis by (simp add: not_le)
    qed
  qed
qed

lemma cursor_inv_put:
  assumes inv: "backend_inv b" and room: "has_room b" and p: "put r b = Inr (v, b')"
    and c: "cursor_inv v0 b D ls"
  shows "cursor_inv v0 b' D ls"
proof -
  let ?rv = "record_version ls"
  have v: "v = last_version b + 1" and lv: "last_version b' = v" using p by (simp_all add: put_Inr)
  have "?rv \<le> last_version b" by (rule cursor_inv_last [OF c])
  then have rv_v: "?rv < v" using room v by (simp add: has_room_def version_less_succ)
  have all': "set (all_records b') = {x \<in> set (all_records b). rec_key x \<noteq> rec_key r} \<union> {r\<lparr>rec_version := v\<rparr>}"
    using inv p by (rule put_all_records_set)
  show ?thesis
  proof (rule cursor_invI)
    fix x assume x: "x \<in> set (all_records b')" and "v0 < rec_version x" and le: "rec_version x \<le> ?rv"
    from x all' consider "x \<in> set (all_records b)" | "x = r\<lparr>rec_version := v\<rparr>" by blast
    then show "x \<in> set (D @ ready ls)"
    proof cases
      case 1
      with \<open>v0 < rec_version x\<close> le show ?thesis by (intro cursor_inv_complete [OF c])
    next
      case 2
      with le rv_v show ?thesis by simp
    qed
  qed (use cursor_invD [OF c] rv_v lv in auto)
qed

lemma cursor_inv_same_records:
  assumes "cursor_inv v0 b D ls" and "all_records b' = all_records b"
    and "last_version b' = last_version b"
  shows "cursor_inv v0 b' D ls"
  using assms(1) unfolding cursor_inv_def assms(2,3) .

lemma cursor_complete:
  assumes c: "cursor_inv v0 b D ls" and r: "ready ls = []"
    and g: "get_since (record_version ls) b = []"
  shows "{x \<in> set (all_records b). v0 < rec_version x} \<subseteq> set D"
proof
  let ?rv = "record_version ls"
  fix x assume x: "x \<in> {x \<in> set (all_records b). v0 < rec_version x}"
  have "x \<notin> set (get_since ?rv b)" using g by simp
  with x have "rec_version x \<le> ?rv" by (simp add: get_since_set not_less)
  with x have "x \<in> set (D @ ready ls)" by (intro cursor_inv_complete [OF c]) simp_all
  with r show "x \<in> set D" by simp
qed

lemma sync_poll_record:
  "sync_poll b blk ls = (GRecord r, ls') \<Longrightarrow>
   get_since (record_version ls) b = r # ready ls' \<and> record_version ls' = rec_version (last (r # ready ls'))"
  by (auto simp: sync_poll_def split: list.splits if_splits)

lemma sync_gen_nonblocking: "fst (sync_gen b False ls) \<noteq> GBlock"
  by (auto simp: sync_gen_def sync_poll_def split: list.split)

end
