(* ===== verification/StreamSystem.thy ===== *)
theory StreamSystem
  imports InMemoryStream
begin

text \<open>
  The tailing stream of \<open>newSyncRecordStream\<close> inside its concurrent environment (spec
  section 5): a writer goroutine calling \<open>Put\<close>, the consumer goroutine calling
  \<open>Next(block)\<close> (suspended in the generator's \<open>select\<close> while \<open>Waiting\<close>), the
  request context being cancelled, a goroutine closing the stream, and one closing the
  store. One event is one
  atomic action of one of them; a run is an explicit interleaving. \<open>EWake\<close> and
  \<open>ECtxDone\<close> are the two cases of the \<open>select\<close> (stream.go lines 65-69), each
  enabled only when its channel is ready; when both are, either may be taken, as in Go.
  \<open>delivered\<close>, \<open>start_version\<close> and \<open>last_outcome\<close> record what the consumer has
  observed.
\<close>

datatype consumer = Idle | Waiting

record sys =
  sys_backend :: backend
  sys_stream :: "sync_state record_stream"
  sys_consumer :: consumer
  sys_cancelled :: bool
  delivered :: "dbrecord list"
  start_version :: version
  last_outcome :: "next_outcome option"

datatype event = EPut dbrecord | ENext bool | EWake | ECtxDone | ECancel | EClose | ECloseStore

definition sys_init :: "backend \<Rightarrow> version \<Rightarrow> sys" where
  "sys_init b v =
     (let (st, b') = newSyncRecordStream b v
      in \<lparr>sys_backend = b', sys_stream = st, sys_consumer = Idle, sys_cancelled = False,
          delivered = [], start_version = v, last_outcome = None\<rparr>)"

text \<open>The consumer observes the result of its \<open>Next\<close> call.\<close>

definition observe :: "next_outcome \<Rightarrow> sys \<Rightarrow> sys" where
  "observe out s =
     (case out of
        NextRecord r \<Rightarrow> s\<lparr>delivered := delivered s @ [r], sys_consumer := Idle, last_outcome := Some out\<rparr>
      | NextBlocked \<Rightarrow> s\<lparr>sys_consumer := Waiting, last_outcome := Some out\<rparr>
      | NextFalse \<Rightarrow> s\<lparr>sys_consumer := Idle, last_outcome := Some out\<rparr>)"

text \<open>
  A suspended \<open>Next\<close> resumes through one case of the generator's \<open>select\<close>. The
  context the framework hands to the generator is done once the request is cancelled,
  the stream is closed, or the store is closed (the framework is given
  \<open>backend.closed\<close>; the pull contract of spec section 4.3: a blocked pull returns when
  the stream is closed or cancellation is requested).
\<close>

definition sys_resume :: "select_case \<Rightarrow> sys \<Rightarrow> sys option" where
  "sys_resume sc s =
     (if sys_consumer s \<noteq> Waiting then None
      else case sync_select sc (sys_cancelled s \<or> stream_closed (sys_stream s) \<or> is_closed (sys_backend s)) (sys_backend s) (gen_state (sys_stream s)) of
        None \<Rightarrow> None
      | Some (res, ls', b') \<Rightarrow>
          (let (out, st') = finish_next (res, generators (sys_stream s), ls') (sys_stream s)
           in Some (observe out (s\<lparr>sys_backend := b', sys_stream := st'\<rparr>))))"

fun sys_step :: "sys \<Rightarrow> event \<Rightarrow> sys option" where
  "sys_step s (EPut r) =
     (case put r (sys_backend s) of
        Inl _ \<Rightarrow> Some s
      | Inr (_, b') \<Rightarrow> Some (s\<lparr>sys_backend := b'\<rparr>))"
| "sys_step s (ENext blk) =
     (if sys_consumer s = Waiting then None
      else (let (out, st') = stream_next (sys_cancelled s) blk (sys_backend s) (sys_stream s)
            in Some (observe out (s\<lparr>sys_stream := st'\<rparr>))))"
| "sys_step s EWake = sys_resume SelChanged s"
| "sys_step s ECtxDone = sys_resume SelCtxDone s"
| "sys_step s ECancel = Some (s\<lparr>sys_cancelled := True\<rparr>)"
| "sys_step s EClose =
     (let (st', b') = stream_close (sys_stream s) (sys_backend s)
      in Some (s\<lparr>sys_stream := st', sys_backend := b'\<rparr>))"
| "sys_step s ECloseStore = Some (s\<lparr>sys_backend := close_backend (sys_backend s)\<rparr>)"

fun sys_run :: "sys \<Rightarrow> event list \<Rightarrow> sys option" where
  "sys_run s [] = Some s"
| "sys_run s (e # es) = (case sys_step s e of None \<Rightarrow> None | Some s' \<Rightarrow> sys_run s' es)"

text \<open>
  The invariant of the composed system: the store is well formed; the cursor invariant
  holds for what the consumer has received; the stream has its one generator or has ended;
  its channel handle was handed out, is bound exactly while the stream is open, and is what
  the finaliser unbinds; a waiting consumer has an empty buffer and, while the stream is
  open, a token in its channel whenever the store holds something newer than its cursor.
\<close>

definition chan_inv :: "backend \<Rightarrow> sync_state record_stream \<Rightarrow> bool" where
  "chan_inv b st \<longleftrightarrow>
     changed (gen_state st) < next_chan (on_change b) \<and>
     (changed (gen_state st) \<in> set (listeners (on_change b)) \<longleftrightarrow> \<not> stream_closed st) \<and>
     on_close st = sync_close (changed (gen_state st))"

definition wait_inv :: "backend \<Rightarrow> sync_state record_stream \<Rightarrow> bool" where
  "wait_inv b st \<longleftrightarrow>
     generators st = [sync_gen] \<and> ready (gen_state st) = [] \<and>
     (\<not> stream_closed st \<longrightarrow> get_since (record_version (gen_state st)) b \<noteq> [] \<longrightarrow>
        chan_full (on_change b) (changed (gen_state st)))"

definition sys_inv :: "sys \<Rightarrow> bool" where
  "sys_inv s \<longleftrightarrow>
     backend_inv (sys_backend s) \<and>
     cursor_inv (start_version s) (sys_backend s) (delivered s) (gen_state (sys_stream s)) \<and>
     generators (sys_stream s) \<in> {[], [sync_gen]} \<and>
     chan_inv (sys_backend s) (sys_stream s) \<and>
     (sys_consumer s = Waiting \<longrightarrow> wait_inv (sys_backend s) (sys_stream s))"

subsection \<open>Generator steps\<close>

lemma sync_gen_ready_Nil:
  "ready ls = [] \<Longrightarrow> sync_gen b blk ls = sync_poll b blk ls"
  by (simp add: sync_gen_def)

lemma sync_poll_result:
  assumes r: "ready ls = []" and p: "sync_poll b blk ls = (res, ls')"
  shows "(\<exists>r rs. get_since (record_version ls) b = r # rs \<and> res = GRecord r \<and>
            ls' = ls\<lparr>ready := rs, record_version := rec_version (last (r # rs))\<rparr>) \<or>
         (get_since (record_version ls) b = [] \<and> res = (if blk then GBlock else GDone) \<and> ls' = ls)"
proof (cases "get_since (record_version ls) b")
  case Nil
  have "ls\<lparr>ready := []\<rparr> = ls" using r by simp
  with Nil p show ?thesis by (cases blk) (simp_all add: sync_poll_def)
next
  case (Cons x xs)
  with p show ?thesis by (simp add: sync_poll_def)
qed

lemma sync_gen_result:
  assumes "sync_gen b blk ls = (res, ls')"
  shows "(\<exists>r rs. ready ls = r # rs \<and> res = GRecord r \<and> ls' = ls\<lparr>ready := rs\<rparr>) \<or>
         (ready ls = [] \<and> sync_poll b blk ls = (res, ls'))"
  using assms by (auto simp: sync_gen_def split: list.splits)

lemma sync_gen_changed:
  "sync_gen b blk ls = (res, ls') \<Longrightarrow> changed ls' = changed ls"
  by (auto simp: sync_gen_def sync_poll_def split: list.splits)

lemma sync_gen_record_cursor:
  assumes inv: "backend_inv b" and c: "cursor_inv v0 b D ls"
    and g: "sync_gen b blk ls = (GRecord r, ls')"
  shows "cursor_inv v0 b (D @ [r]) ls'"
  using sync_gen_result [OF g]
proof
  assume "\<exists>r' rs. ready ls = r' # rs \<and> GRecord r = GRecord r' \<and> ls' = ls\<lparr>ready := rs\<rparr>"
  then obtain rs where "ready ls = r # rs" and "ls' = ls\<lparr>ready := rs\<rparr>" by auto
  with c show ?thesis by (simp add: cursor_inv_pop)
next
  assume "ready ls = [] \<and> sync_poll b blk ls = (GRecord r, ls')"
  then have r: "ready ls = []" and p: "sync_poll b blk ls = (GRecord r, ls')" by auto
  from sync_poll_result [OF r p] obtain rs where
    g': "get_since (record_version ls) b = r # rs"
    and eq: "ls' = ls\<lparr>ready := rs, record_version := rec_version (last (r # rs))\<rparr>"
    by (auto split: if_splits)
  from cursor_inv_poll [OF inv c r g'] show ?thesis by (simp only: eq)
qed

lemma sync_gen_other:
  assumes g: "sync_gen b blk ls = (res, ls')" and "\<forall>r. res \<noteq> GRecord r"
  shows "ready ls = [] \<and> get_since (record_version ls) b = [] \<and>
         res = (if blk then GBlock else GDone) \<and> ls' = ls"
proof -
  from sync_gen_result [OF g] assms(2) have r: "ready ls = []" and p: "sync_poll b blk ls = (res, ls')"
    by auto
  from sync_poll_result [OF r p] assms(2)
  have "get_since (record_version ls) b = [] \<and> res = (if blk then GBlock else GDone) \<and> ls' = ls"
    by blast
  with r show ?thesis by blast
qed

lemma run_generators_sync_gen:
  "run_generators [sync_gen] b blk ls =
     (case sync_gen b blk ls of (GDone, ls') \<Rightarrow> (GDone, [], ls') | (res, ls') \<Rightarrow> (res, [sync_gen], ls'))"
  by (simp split: prod.split gen_result.split)

subsection \<open>Invariant preservation, event by event\<close>

lemma stream_next_cases:
  assumes "stream_next c blk b T = (out, T')"
  shows "(out = NextFalse \<and> gen_state T' = gen_state T \<and> generators T' = generators T \<and>
          stream_closed T' = stream_closed T \<and> on_close T' = on_close T) \<or>
         (\<not> stream_closed T \<and> \<not> is_closed b \<and> stream_err T = None \<and> \<not> c \<and>
          finish_next (run_generators (generators T) b blk (gen_state T)) T = (out, T'))"
  using assms by (auto simp: stream_next_def split: if_splits)

lemma finish_next_frame:
  assumes "finish_next (res, gs, ls') T = (out, T')"
  shows "gen_state T' = ls' \<and> generators T' = gs \<and> stream_closed T' = stream_closed T \<and>
         on_close T' = on_close T \<and>
         out = (case res of GRecord r \<Rightarrow> NextRecord r | GBlock \<Rightarrow> NextBlocked | _ \<Rightarrow> NextFalse)"
  using assms by (cases res) auto

lemma observe_fields [simp]:
  "sys_backend (observe out s) = sys_backend s" "sys_stream (observe out s) = sys_stream s"
  "start_version (observe out s) = start_version s" "sys_cancelled (observe out s) = sys_cancelled s"
  by (simp_all add: observe_def split: next_outcome.split)

lemma observe_consumer:
  "sys_consumer (observe out s) = (if out = NextBlocked then Waiting else Idle)"
  by (simp add: observe_def split: next_outcome.split)

lemma observe_delivered:
  "delivered (observe out s) = (case out of NextRecord r \<Rightarrow> delivered s @ [r] | _ \<Rightarrow> delivered s)"
  by (simp add: observe_def split: next_outcome.split)

text \<open>
  The state after the consumer's pull reaches the generator: whatever the generator
  returns (a record, a suspension, or the end), the invariant holds after \<open>Next\<close>
  reports it.
\<close>

lemma sys_inv_pull:
  assumes bi: "backend_inv b" and ci: "cursor_inv (start_version s) b (delivered s) (gen_state T)"
    and ch: "chan_inv b T" and gs: "generators T = [sync_gen]"
    and fn: "finish_next (run_generators [sync_gen] b blk (gen_state T)) T = (out, T')"
  shows "sys_inv (observe out (s\<lparr>sys_backend := b, sys_stream := T'\<rparr>))"
proof -
  let ?ls = "gen_state T"
  obtain res ls' where g: "sync_gen b blk ?ls = (res, ls')" by (cases "sync_gen b blk ?ls") auto
  show ?thesis
  proof (cases "\<exists>r. res = GRecord r")
    case True
    then obtain r where r: "res = GRecord r" by blast
    with fn g have out: "out = NextRecord r"
      and T': "T' = T\<lparr>generators := [sync_gen], gen_state := ls', current := Some r\<rparr>"
      by (simp_all add: run_generators_sync_gen)
    have "cursor_inv (start_version s) b (delivered s @ [r]) ls'"
      using sync_gen_record_cursor [OF bi ci] g r by simp
    moreover have "chan_inv b T'" using ch T' sync_gen_changed [OF g] by (simp add: chan_inv_def)
    ultimately show ?thesis using bi out T' by (simp add: sys_inv_def observe_consumer observe_delivered)
  next
    case False
    then have other: "ready ?ls = [] \<and> get_since (record_version ?ls) b = [] \<and>
        res = (if blk then GBlock else GDone) \<and> ls' = ?ls"
      using sync_gen_other [OF g] by blast
    show ?thesis
    proof (cases blk)
      case True
      with fn g other have out: "out = NextBlocked" and T': "T' = T\<lparr>generators := [sync_gen]\<rparr>"
        by (simp_all add: run_generators_sync_gen)
      have "wait_inv b T'" using other T' by (simp add: wait_inv_def)
      with bi ci ch out T' show ?thesis
        by (simp add: sys_inv_def observe_consumer observe_delivered chan_inv_def)
    next
      case False
      with fn g other have out: "out = NextFalse"
        and T': "T' = T\<lparr>generators := [], gen_state := ?ls, current := None\<rparr>"
        by (simp_all add: run_generators_sync_gen)
      with bi ci ch show ?thesis
        by (simp add: sys_inv_def observe_consumer observe_delivered chan_inv_def)
    qed
  qed
qed

lemma sys_inv_put:
  assumes inv: "sys_inv s" and room: "has_room (sys_backend s)"
    and st: "sys_step s (EPut r) = Some s'"
  shows "sys_inv s'"
proof (cases "put r (sys_backend s)")
  case (Inl e)
  with st inv show ?thesis by simp
next
  case (Inr p)
  then obtain v b' where p: "put r (sys_backend s) = Inr (v, b')" by (cases p) auto
  with st have s': "s' = s\<lparr>sys_backend := b'\<rparr>" by simp
  let ?b = "sys_backend s" and ?T = "sys_stream s"
  have bi: "backend_inv ?b" and ci: "cursor_inv (start_version s) ?b (delivered s) (gen_state ?T)"
    and ch: "chan_inv ?b ?T"
    using inv by (simp_all add: sys_inv_def)
  have sig: "on_change b' = broadcast (on_change ?b)" using p by (simp add: put_Inr)
  have "backend_inv b'" using put_inv [OF bi room p] .
  moreover have "cursor_inv (start_version s) b' (delivered s) (gen_state ?T)"
    using cursor_inv_put [OF bi room p ci] .
  moreover have "chan_inv b' ?T" using ch sig by (simp add: chan_inv_def)
  moreover have "sys_consumer s = Waiting \<longrightarrow> wait_inv b' ?T"
    using inv ch sig by (auto simp: sys_inv_def wait_inv_def chan_inv_def)
  ultimately show ?thesis using inv s' by (simp add: sys_inv_def)
qed

lemma sys_step_next_Waiting:
  "sys_consumer s = Waiting \<Longrightarrow> sys_step s (ENext blk) = None"
  by simp

lemma sys_inv_next:
  assumes inv: "sys_inv s" and st: "sys_step s (ENext blk) = Some s'"
  shows "sys_inv s'"
proof -
  let ?b = "sys_backend s" and ?T = "sys_stream s"
  let ?ls = "gen_state ?T" and ?v0 = "start_version s"
  have idle: "sys_consumer s \<noteq> Waiting"
    using st sys_step_next_Waiting by (metis option.distinct(1))
  obtain out T' where sn: "stream_next (sys_cancelled s) blk ?b ?T = (out, T')"
    by (cases "stream_next (sys_cancelled s) blk ?b ?T") auto
  with st idle have s': "s' = observe out (s\<lparr>sys_stream := T'\<rparr>)" by simp
  have bi: "backend_inv ?b" and ci: "cursor_inv ?v0 ?b (delivered s) ?ls"
    and gi: "generators ?T \<in> {[], [sync_gen]}" and ch: "chan_inv ?b ?T"
    using inv by (simp_all add: sys_inv_def)
  from stream_next_cases [OF sn] show ?thesis
  proof
    assume "out = NextFalse \<and> gen_state T' = ?ls \<and> generators T' = generators ?T \<and>
       stream_closed T' = stream_closed ?T \<and> on_close T' = on_close ?T"
    then have out: "out = NextFalse" and same: "gen_state T' = ?ls" "generators T' = generators ?T"
      and cl: "stream_closed T' = stream_closed ?T" "on_close T' = on_close ?T" by simp_all
    have "chan_inv ?b T'" using ch same(1) cl by (simp add: chan_inv_def)
    with bi ci gi s' out same show ?thesis
      by (simp add: sys_inv_def observe_consumer observe_delivered)
  next
    assume "\<not> stream_closed ?T \<and> \<not> is_closed ?b \<and> stream_err ?T = None \<and> \<not> sys_cancelled s \<and>
       finish_next (run_generators (generators ?T) ?b blk ?ls) ?T = (out, T')"
    then have fn: "finish_next (run_generators (generators ?T) ?b blk ?ls) ?T = (out, T')" by simp
    from gi consider "generators ?T = []" | "generators ?T = [sync_gen]" by blast
    then show ?thesis
    proof cases
      case 1
      with fn have "out = NextFalse" and "T' = ?T\<lparr>generators := [], gen_state := ?ls, current := None\<rparr>"
        by simp_all
      with bi ci ch s' show ?thesis
        by (simp add: sys_inv_def observe_consumer observe_delivered chan_inv_def)
    next
      case 2
      from sys_inv_pull [OF bi ci ch 2 fn [unfolded 2]] s' show ?thesis by simp
    qed
  qed
qed

lemma on_change_update_records [simp]:
  "all_records (b\<lparr>on_change := sig\<rparr>) = all_records b"
  "get_since v (b\<lparr>on_change := sig\<rparr>) = get_since v b"
  by (simp_all add: all_records_def get_since_def)

lemma backend_inv_on_change:
  "backend_inv b \<Longrightarrow> signal_inv sig \<Longrightarrow> backend_inv (b\<lparr>on_change := sig\<rparr>)"
  by (simp add: backend_inv_def)

lemma sync_select_changed:
  "sync_select SelChanged cc b ls = Some (res, ls', b') \<longleftrightarrow>
     chan_full (on_change b) (changed ls) \<and>
     b' = b\<lparr>on_change := (on_change b)\<lparr>chan_full := (chan_full (on_change b))(changed ls := False)\<rparr>\<rparr> \<and>
     sync_poll b' True ls = (res, ls')"
  by (auto simp: Let_def split: prod.splits)

lemma sys_resume_Waiting:
  "sys_resume sc s = Some s' \<Longrightarrow> sys_consumer s = Waiting"
  by (simp add: sys_resume_def split: if_splits)

lemma sys_resume_Some:
  assumes "sys_resume sc s = Some s'"
  obtains res ls' b' out T' where
    "sync_select sc (sys_cancelled s \<or> stream_closed (sys_stream s) \<or> is_closed (sys_backend s)) (sys_backend s) (gen_state (sys_stream s)) = Some (res, ls', b')"
    "finish_next (res, generators (sys_stream s), ls') (sys_stream s) = (out, T')"
    "s' = observe out (s\<lparr>sys_backend := b', sys_stream := T'\<rparr>)"
  using assms
  by (auto simp: sys_resume_def split: if_splits option.splits prod.splits)

lemma sys_inv_wake:
  assumes inv: "sys_inv s" and st: "sys_step s EWake = Some s'"
  shows "sys_inv s'"
proof -
  let ?b = "sys_backend s" and ?T = "sys_stream s"
  let ?ls = "gen_state ?T" and ?v0 = "start_version s"
  have rs: "sys_resume SelChanged s = Some s'" using st by simp
  then have w: "sys_consumer s = Waiting" by (rule sys_resume_Waiting)
  obtain res ls' b' out T' where sel: "sync_select SelChanged (sys_cancelled s \<or> stream_closed ?T \<or> is_closed ?b) ?b ?ls = Some (res, ls', b')"
    and fn: "finish_next (res, generators ?T, ls') ?T = (out, T')"
    and s': "s' = observe out (s\<lparr>sys_backend := b', sys_stream := T'\<rparr>)"
    using rs by (rule sys_resume_Some)
  have bi: "backend_inv ?b" and ci: "cursor_inv ?v0 ?b (delivered s) ?ls"
    and ch: "chan_inv ?b ?T" and wi: "wait_inv ?b ?T"
    using inv w by (simp_all add: sys_inv_def)
  from wi have gens: "generators ?T = [sync_gen]" and r: "ready ?ls = []"
    by (simp_all add: wait_inv_def)
  have sel': "chan_full (on_change ?b) (changed ?ls) \<and>
     b' = ?b\<lparr>on_change := (on_change ?b)\<lparr>chan_full := (chan_full (on_change ?b))(changed ?ls := False)\<rparr>\<rparr> \<and>
     sync_poll b' True ?ls = (res, ls')"
    using sync_select_changed [THEN iffD1, OF sel] .
  then have b': "b' = ?b\<lparr>on_change := (on_change ?b)\<lparr>chan_full := (chan_full (on_change ?b))(changed ?ls := False)\<rparr>\<rparr>"
    and poll: "sync_poll b' True ?ls = (res, ls')"
    by blast+
  have bi': "backend_inv b'" using bi b' by (simp add: backend_inv_def)
  have recs: "all_records b' = all_records ?b" "last_version b' = last_version ?b" using b' by simp_all
  have ci': "cursor_inv ?v0 b' (delivered s) ?ls" using cursor_inv_same_records [OF ci recs] .
  have ch': "chan_inv b' ?T" using ch b' by (simp add: chan_inv_def)
  have g: "sync_gen b' True ?ls = (res, ls')" using poll r by (simp add: sync_gen_ready_Nil)
  have "res \<noteq> GDone" using sync_poll_result [OF r poll] by auto
  with g have "run_generators [sync_gen] b' True ?ls = (res, [sync_gen], ls')"
    by (cases res) (simp_all add: run_generators_sync_gen)
  with fn gens have "finish_next (run_generators [sync_gen] b' True ?ls) ?T = (out, T')" by simp
  from sys_inv_pull [OF bi' ci' ch' gens this] s' show ?thesis by simp
qed

lemma sys_inv_ctx_done:
  assumes inv: "sys_inv s" and st: "sys_step s ECtxDone = Some s'"
  shows "sys_inv s'"
proof -
  have rs: "sys_resume SelCtxDone s = Some s'" using st by simp
  obtain res ls' b' out T' where sel: "sync_select SelCtxDone (sys_cancelled s \<or> stream_closed (sys_stream s) \<or> is_closed (sys_backend s)) (sys_backend s) (gen_state (sys_stream s)) = Some (res, ls', b')"
    and fn: "finish_next (res, generators (sys_stream s), ls') (sys_stream s) = (out, T')"
    and s': "s' = observe out (s\<lparr>sys_backend := b', sys_stream := T'\<rparr>)"
    using rs by (rule sys_resume_Some)
  from sel have "res = GErr ErrCanceled" and "ls' = gen_state (sys_stream s)" and "b' = sys_backend s"
    by (simp_all split: if_splits)
  with fn have "out = NextFalse" and "gen_state T' = gen_state (sys_stream s)"
    and "generators T' = generators (sys_stream s)" and "stream_closed T' = stream_closed (sys_stream s)"
    and "on_close T' = on_close (sys_stream s)"
    by auto
  with inv s' \<open>b' = sys_backend s\<close> show ?thesis
    by (simp add: sys_inv_def observe_consumer observe_delivered chan_inv_def)
qed

lemma sys_inv_cancel:
  "sys_inv s \<Longrightarrow> sys_step s ECancel = Some s' \<Longrightarrow> sys_inv s'"
  by (auto simp: sys_inv_def)

lemma sys_inv_close:
  assumes inv: "sys_inv s" and st: "sys_step s EClose = Some s'"
  shows "sys_inv s'"
proof (cases "stream_closed (sys_stream s)")
  case True
  with inv st show ?thesis by (simp add: stream_close_def)
next
  case False
  let ?b = "sys_backend s" and ?T = "sys_stream s"
  let ?c = "changed (gen_state ?T)"
  have ch: "chan_inv ?b ?T" and bi: "backend_inv ?b" using inv by (simp_all add: sys_inv_def)
  then have oc: "on_close ?T = sync_close ?c" by (simp add: chan_inv_def)
  let ?b' = "?b\<lparr>on_change := unbind ?c (on_change ?b)\<rparr>"
  have s': "s' = s\<lparr>sys_stream := ?T\<lparr>stream_closed := True\<rparr>, sys_backend := ?b'\<rparr>"
    using st False oc by (simp add: stream_close_def sync_close_def)
  have "backend_inv ?b'"
    using bi by (intro backend_inv_on_change signal_inv_unbind) (simp_all add: backend_inv_def)
  moreover have "cursor_inv (start_version s) ?b (delivered s) (gen_state ?T)"
    using inv by (simp add: sys_inv_def)
  then have "cursor_inv (start_version s) ?b' (delivered s) (gen_state ?T)"
    by (rule cursor_inv_same_records) simp_all
  moreover have "chan_inv ?b' (?T\<lparr>stream_closed := True\<rparr>)"
    using ch by (simp add: chan_inv_def)
  moreover have "sys_consumer s = Waiting \<longrightarrow> wait_inv ?b' (?T\<lparr>stream_closed := True\<rparr>)"
    using inv by (simp add: sys_inv_def wait_inv_def)
  ultimately show ?thesis using inv s' by (simp add: sys_inv_def)
qed

lemma sys_inv_close_store:
  assumes inv: "sys_inv s" and st: "sys_step s ECloseStore = Some s'"
  shows "sys_inv s'"
proof -
  let ?b = "sys_backend s"
  have s': "s' = s\<lparr>sys_backend := close_backend ?b\<rparr>" using st by simp
  have recs: "all_records (close_backend ?b) = all_records ?b" "last_version (close_backend ?b) = last_version ?b"
    "get_since v (close_backend ?b) = get_since v ?b" "on_change (close_backend ?b) = on_change ?b" for v
    by (simp_all add: close_backend_def all_records_def get_since_def)
  have "backend_inv (close_backend ?b)" using inv by (simp add: sys_inv_def backend_inv_def close_backend_def all_records_def)
  moreover have "cursor_inv (start_version s) (close_backend ?b) (delivered s) (gen_state (sys_stream s))"
    using inv cursor_inv_same_records [OF _ recs(1,2)] by (simp add: sys_inv_def)
  ultimately show ?thesis using inv s' recs by (simp add: sys_inv_def chan_inv_def wait_inv_def)
qed

lemma sys_inv_step:
  assumes "sys_inv s" and "has_room (sys_backend s)" and "sys_step s e = Some s'"
  shows "sys_inv s'"
proof (cases e)
  case (EPut r)
  with assms show ?thesis by (blast intro: sys_inv_put)
next
  case (ENext blk)
  with assms show ?thesis by (blast intro: sys_inv_next)
next
  case EWake
  with assms show ?thesis by (blast intro: sys_inv_wake)
next
  case ECtxDone
  with assms show ?thesis by (blast intro: sys_inv_ctx_done)
next
  case ECancel
  with assms show ?thesis by (blast intro: sys_inv_cancel)
next
  case EClose
  with assms show ?thesis by (blast intro: sys_inv_close)
next
  case ECloseStore
  with assms show ?thesis by (blast intro: sys_inv_close_store)
qed

text \<open>A step moves the version counter by at most one (only a \<open>Put\<close> moves it).\<close>

lemma sys_step_last_version:
  assumes "sys_step s e = Some s'" and "has_room (sys_backend s)" and "sys_inv s"
  shows "unat (last_version (sys_backend s')) \<le> Suc (unat (last_version (sys_backend s)))"
proof (cases e)
  case (EPut r)
  show ?thesis
  proof (cases "put r (sys_backend s)")
    case (Inl x)
    with assms EPut show ?thesis by simp
  next
    case (Inr p)
    then obtain v b' where p: "put r (sys_backend s) = Inr (v, b')" by (cases p) auto
    with assms EPut have s': "s' = s\<lparr>sys_backend := b'\<rparr>" by simp
    from p have "last_version b' = last_version (sys_backend s) + 1" by (simp add: put_Inr)
    with s' assms(2) show ?thesis by (simp add: has_room_def version_succ_unat)
  qed
next
  case (ENext blk)
  with assms show ?thesis by (auto split: if_splits prod.splits)
next
  case EWake
  with assms show ?thesis
    by (auto simp: sys_resume_def Let_def split: if_splits option.splits prod.splits)
next
  case ECtxDone
  with assms show ?thesis
    by (auto simp: sys_resume_def Let_def split: if_splits option.splits prod.splits)
next
  case ECancel
  with assms show ?thesis by auto
next
  case EClose
  with assms show ?thesis
    by (auto simp: stream_close_def sys_inv_def chan_inv_def sync_close_def split: if_splits prod.splits)
next
  case ECloseStore
  with assms show ?thesis by (auto simp: close_backend_def)
qed

lemma run_generators_nonblocking:
  "gs \<in> {[], [sync_gen]} \<Longrightarrow> fst (run_generators gs b False ls) \<noteq> GBlock"
proof (cases "gs = []")
  case False
  moreover assume "gs \<in> {[], [sync_gen]}"
  ultimately have gs: "gs = [sync_gen]" by simp
  obtain res ls' where g: "sync_gen b False ls = (res, ls')" by (cases "sync_gen b False ls")
  then have "res \<noteq> GBlock" using sync_gen_nonblocking [of b ls] by simp
  with g gs show ?thesis by (cases res) simp_all
qed simp

end
