(* ===== verification/StreamRuns.thy ===== *)
theory StreamRuns
  imports StreamSystem
begin

text \<open>
  Runs of the stream system: the invariant over whole runs and over the reachable states
  (an inductive relation, proved by rule induction), the counter's room, what a run of
  writes followed by non-blocking pulls delivers, when a stream has ended for good, and a
  client opening and closing streams in sequence.
\<close>

text \<open>
  A client that opens a tailing stream and closes it again, \<open>n\<close> times in sequence
  (spec section 8, no subscription leak).
\<close>

fun open_close :: "nat \<Rightarrow> version \<Rightarrow> backend \<Rightarrow> backend" where
  "open_close 0 v b = b"
| "open_close (Suc n) v b =
     (let (st, b1) = newSyncRecordStream b v in open_close n v (snd (stream_close st b1)))"

text \<open>
  A stream that will never deliver again: the consumer is not suspended and the stream has
  no generator left, is closed, has latched an error, or its context or store is done.
\<close>

definition stream_ended :: "sys \<Rightarrow> bool" where
  "stream_ended s \<longleftrightarrow> sys_consumer s \<noteq> Waiting \<and>
     (generators (sys_stream s) = [] \<or> stream_closed (sys_stream s) \<or> stream_err (sys_stream s) \<noteq> None \<or>
      sys_cancelled s \<or> is_closed (sys_backend s))"

text \<open>
  The reachable states: those of a stream opened at a cursor no later than the store's
  counter, closed under every event taken while the counter has room for another version.
\<close>

inductive sys_reach :: "sys \<Rightarrow> bool" where
  reach_init: "backend_inv b \<Longrightarrow> v \<le> last_version b \<Longrightarrow> sys_reach (sys_init b v)"
| reach_step: "sys_reach s \<Longrightarrow> has_room (sys_backend s) \<Longrightarrow> sys_step s e = Some s' \<Longrightarrow> sys_reach s'"

section \<open>Runs and reachable states\<close>

lemma has_room_unat:
  assumes "unat (last_version b) + 1 < 2 ^ 64"
  shows "has_room b"
proof -
  let ?v = "last_version b"
  have "unat (?v + 1) = unat ?v + unat (1::version)"
    using assms unat_add_lem [of ?v 1] by simp
  then have "unat (?v + 1) \<noteq> 0" by simp
  then have "?v + 1 \<noteq> 0" by (metis unsigned_0)
  then show ?thesis by (auto simp: has_room_def)
qed

lemma sys_run_inv:
  assumes "sys_inv s" and "unat (last_version (sys_backend s)) + length es < 2 ^ 64"
    and "sys_run s es = Some s'"
  shows "sys_inv s'"
  using assms
proof (induction es arbitrary: s)
  case Nil
  then show ?case by simp
next
  case (Cons e es)
  from Cons.prems(3) obtain s1 where st: "sys_step s e = Some s1" and run: "sys_run s1 es = Some s'"
    by (auto split: option.splits)
  have room: "has_room (sys_backend s)" using Cons.prems(2) by (intro has_room_unat) simp
  have inv1: "sys_inv s1" using sys_inv_step [OF Cons.prems(1) room st] .
  have "unat (last_version (sys_backend s1)) \<le> Suc (unat (last_version (sys_backend s)))"
    using sys_step_last_version [OF st room Cons.prems(1)] .
  with Cons.prems(2) have "unat (last_version (sys_backend s1)) + length es < 2 ^ 64" by simp
  from Cons.IH [OF inv1 this run] show ?case .
qed

lemma sys_init_inv:
  assumes "backend_inv b" and "v \<le> last_version b"
  shows "sys_inv (sys_init b v)"
proof -
  obtain c sig where bd: "bind (on_change b) = (c, sig)" by (cases "bind (on_change b)") auto
  have si: "signal_inv (on_change b)" using assms(1) by (simp add: backend_inv_def)
  have fresh: "c \<notin> set (listeners (on_change b))" using bind_fresh [OF si bd] .
  have sig: "sig = (on_change b)\<lparr>next_chan := Suc c, listeners := listeners (on_change b) @ [c],
      chan_full := (chan_full (on_change b))(c := False)\<rparr>" and c: "c = next_chan (on_change b)"
    using bd by (auto simp: bind_def Let_def)
  have "signal_inv sig" using signal_inv_bind [OF si] bd by simp
  then have "backend_inv (b\<lparr>on_change := sig\<rparr>)" using assms(1) by (rule backend_inv_on_change [rotated])
  moreover have "cursor_inv v (b\<lparr>on_change := sig\<rparr>) [] \<lparr>ready = [], record_version = v, changed = c\<rparr>"
    using assms(2) by (intro cursor_inv_init) simp
  ultimately show ?thesis
    using bd sig c
    by (simp add: sys_init_def newSyncRecordStream_def new_record_stream_def sys_inv_def chan_inv_def)
qed

lemma sys_step_start:
  "sys_step s e = Some s' \<Longrightarrow> start_version s' = start_version s"
  by (cases e)
     (auto simp: sys_resume_def Let_def split: if_splits option.splits prod.splits sum.splits)

lemma sys_run_start:
  "sys_run s es = Some s' \<Longrightarrow> start_version s' = start_version s"
  by (induction es arbitrary: s) (auto split: option.splits dest: sys_step_start)

lemma sys_init_fields:
  "start_version (sys_init b v) = v" "last_version (sys_backend (sys_init b v)) = last_version b"
  "delivered (sys_init b v) = []"
  by (simp_all add: sys_init_def newSyncRecordStream_def split: prod.split)

lemma sys_inv_delivered:
  assumes "sys_inv s"
  shows "ascending rec_version (delivered s) \<and> (\<forall>x\<in>set (delivered s). start_version s < rec_version x)"
proof -
  have c: "cursor_inv (start_version s) (sys_backend s) (delivered s) (gen_state (sys_stream s))"
    using assms by (simp add: sys_inv_def)
  have "ascending rec_version (delivered s)"
    using cursor_inv_asc [OF c] by (simp add: sorted_wrt_append)
  moreover have "\<forall>x\<in>set (delivered s). start_version s < rec_version x"
    using cursor_inv_bounds [OF c] by simp
  ultimately show ?thesis ..
qed

lemma stream_next_no_err:
  assumes "stream_next c blk b T = (out, T')" and "stream_err T' = None"
  shows "\<not> stream_closed T \<and> \<not> is_closed b \<and> stream_err T = None \<and> \<not> c \<and>
         finish_next (run_generators (generators T) b blk (gen_state T)) T = (out, T')"
  using assms by (auto simp: stream_next_def split: if_splits)

lemma put_get_since_nonempty:
  assumes "backend_inv b" and "has_room b" and "put r b = Inr (v, b')" and "w \<le> last_version b"
  shows "get_since w b' \<noteq> []"
  using get_since_put [OF assms] by simp

lemma sys_run_init_inv:
  assumes "backend_inv b" and "v \<le> last_version b"
    and "unat (last_version b) + length es < 2 ^ 64" and "sys_run (sys_init b v) es = Some s"
  shows "sys_inv s"
  using sys_run_inv [OF sys_init_inv [OF assms(1,2)]] assms(3,4) by (simp add: sys_init_fields)

section \<open>Runs of writes followed by non-blocking pulls\<close>

lemma sys_run_append:
  "sys_run s (xs @ ys) = (case sys_run s xs of None \<Rightarrow> None | Some s' \<Rightarrow> sys_run s' ys)"
  by (induction xs arbitrary: s) (auto split: option.split)

lemma sys_run_puts:
  assumes "backend_inv (sys_backend s)" and "\<not> is_closed (sys_backend s)"
    and "unat (last_version (sys_backend s)) + length rs < 2 ^ 64"
    and "distinct (map rec_key rs)" and "w \<le> last_version (sys_backend s)"
  shows "\<exists>b'. sys_run s (map EPut rs) = Some (s\<lparr>sys_backend := b'\<rparr>) \<and> backend_inv b' \<and>
           \<not> is_closed b' \<and>
           get_since w b' = filter (\<lambda>x. rec_key x \<notin> set (map rec_key rs)) (get_since w (sys_backend s)) @
                           stamp (last_version (sys_backend s)) rs"
  using assms
proof (induction rs arbitrary: s w)
  case Nil
  then show ?case by (rule_tac x = "sys_backend s" in exI) simp
next
  case (Cons r rs)
  let ?b = "sys_backend s"
  have room: "has_room ?b" using Cons.prems(3) by (intro has_room_unat) simp
  obtain v b1 where p: "put r ?b = Inr (v, b1)"
    using Cons.prems(2) by (simp add: put_def Let_def)
  have v: "v = last_version ?b + 1" "last_version b1 = v" using put_version [OF p] by simp_all
  have inv1: "backend_inv b1" using put_inv [OF Cons.prems(1) room p] .
  have open1: "\<not> is_closed b1" using p by (simp add: put_Inr)
  let ?s1 = "s\<lparr>sys_backend := b1\<rparr>"
  have u: "unat (last_version b1) = Suc (unat (last_version ?b))"
    using v room by (simp add: version_succ_unat has_room_def)
  have w1: "w \<le> last_version b1"
    using Cons.prems(5) room v by (auto simp: has_room_def intro: order_trans [OF _ less_imp_le [OF version_less_succ]])
  from Cons.IH [of ?s1 w] inv1 open1 u Cons.prems(3,4) w1
  obtain b' where r: "sys_run ?s1 (map EPut rs) = Some (?s1\<lparr>sys_backend := b'\<rparr>)"
    and i: "backend_inv b'" and c: "\<not> is_closed b'"
    and g: "get_since w b' = filter (\<lambda>x. rec_key x \<notin> set (map rec_key rs)) (get_since w b1) @
                           stamp (last_version b1) rs"
    by auto
  have g1: "get_since w b1 = filter (\<lambda>x. rec_key x \<noteq> rec_key r) (get_since w ?b) @ [r\<lparr>rec_version := v\<rparr>]"
    using get_since_put [OF Cons.prems(1) room p Cons.prems(5)] .
  have "rec_key (r\<lparr>rec_version := v\<rparr>) \<notin> set (map rec_key rs)"
    using Cons.prems(4) by (simp add: rec_key_def)
  then have "get_since w b' = filter (\<lambda>x. rec_key x \<notin> set (map rec_key (r # rs))) (get_since w ?b) @
                           stamp (last_version ?b) (r # rs)"
    using g g1 v by (simp add: filter_filter conj_commute)
  with r i c p show ?case by (rule_tac x = b' in exI) simp
qed

lemma sys_next_live:
  assumes "sys_consumer s \<noteq> Waiting" and "\<not> sys_cancelled s"
    and "stream_live (sys_stream s) (sys_backend s)" and "generators (sys_stream s) = [sync_gen]"
  shows "sys_step s (ENext False) =
    Some (let (out, st') = finish_next (run_generators [sync_gen] (sys_backend s) False
                             (gen_state (sys_stream s))) (sys_stream s)
          in observe out (s\<lparr>sys_stream := st'\<rparr>))"
  using assms by (simp add: stream_next_live split: prod.split)

lemma sys_drain_ready:
  assumes "sys_consumer s \<noteq> Waiting" and "\<not> sys_cancelled s"
    and "stream_live (sys_stream s) (sys_backend s)" and "generators (sys_stream s) = [sync_gen]"
    and "get_since (record_version (gen_state (sys_stream s))) (sys_backend s) = []"
  shows "\<exists>s'. sys_run s (replicate (Suc (length (ready (gen_state (sys_stream s))))) (ENext False)) = Some s' \<and>
           delivered s' = delivered s @ ready (gen_state (sys_stream s)) \<and> last_outcome s' = Some NextFalse"
  using assms
proof (induction "ready (gen_state (sys_stream s))" arbitrary: s)
  case Nil
  from sys_next_live [OF Nil.prems(1-4)] Nil.hyps Nil.prems(5)
  have "sys_step s (ENext False) =
      Some (observe NextFalse (s\<lparr>sys_stream := sys_stream s\<lparr>generators := [],
        gen_state := gen_state (sys_stream s)\<lparr>ready := []\<rparr>, current := None\<rparr>\<rparr>))"
    by (simp add: sync_gen_def sync_poll_def)
  with Nil.hyps show ?case by (simp add: observe_def)
next
  case (Cons r rs)
  let ?T = "sys_stream s"
  let ?s1 = "observe (NextRecord r) (s\<lparr>sys_stream := ?T\<lparr>generators := [sync_gen], gen_state := gen_state ?T\<lparr>ready := rs\<rparr>, current := Some r\<rparr>\<rparr>)"
  have st: "sys_step s (ENext False) = Some ?s1"
    using sys_next_live [OF Cons.prems(1-4)] Cons.hyps(2) [symmetric] by (simp add: sync_gen_def)
  have "\<exists>s'. sys_run ?s1 (replicate (Suc (length rs)) (ENext False)) = Some s' \<and>
           delivered s' = delivered ?s1 @ rs \<and> last_outcome s' = Some NextFalse"
    using Cons.hyps(1) [of ?s1] Cons.prems by (simp add: observe_def stream_live_def)
  with st Cons.hyps(2) [symmetric] show ?case by (simp add: observe_def)
qed

lemma sys_drain_fresh:
  assumes "sys_consumer s \<noteq> Waiting" and "\<not> sys_cancelled s"
    and "stream_live (sys_stream s) (sys_backend s)" and "generators (sys_stream s) = [sync_gen]"
    and "ready (gen_state (sys_stream s)) = []" and "backend_inv (sys_backend s)"
  shows "\<exists>s'. sys_run s (replicate (Suc (length (get_since (record_version (gen_state (sys_stream s))) (sys_backend s)))) (ENext False)) = Some s' \<and>
           delivered s' = delivered s @ get_since (record_version (gen_state (sys_stream s))) (sys_backend s) \<and>
           last_outcome s' = Some NextFalse"
proof (cases "get_since (record_version (gen_state (sys_stream s))) (sys_backend s)")
  case Nil
  with sys_drain_ready [OF assms(1-4)] assms(5) show ?thesis by simp
next
  case (Cons x xs)
  let ?T = "sys_stream s"
  let ?s1 = "observe (NextRecord x) (s\<lparr>sys_stream := ?T\<lparr>generators := [sync_gen],
      gen_state := gen_state ?T\<lparr>ready := xs, record_version := rec_version (last (x # xs))\<rparr>,
      current := Some x\<rparr>\<rparr>)"
  have st: "sys_step s (ENext False) = Some ?s1"
    using sys_next_live [OF assms(1-4)] assms(5) Cons by (simp add: sync_gen_def sync_poll_def)
  have "get_since (rec_version (last (x # xs))) (sys_backend s) = []"
    using get_since_caught_up [OF assms(6) Cons] .
  then have "\<exists>s'. sys_run ?s1 (replicate (Suc (length xs)) (ENext False)) = Some s' \<and>
           delivered s' = delivered ?s1 @ xs \<and> last_outcome s' = Some NextFalse"
    using sys_drain_ready [of ?s1] assms by (simp add: observe_def stream_live_def)
  with st Cons show ?thesis by (simp add: observe_def)
qed

lemma sys_init_stream:
  "sys_consumer (sys_init b v) = Idle" "\<not> sys_cancelled (sys_init b v)"
  "is_closed (sys_backend (sys_init b v)) = is_closed b"
  "generators (sys_stream (sys_init b v)) = [sync_gen]"
  "ready (gen_state (sys_stream (sys_init b v))) = []"
  "record_version (gen_state (sys_stream (sys_init b v))) = v"
  "\<not> stream_closed (sys_stream (sys_init b v))" "stream_err (sys_stream (sys_init b v)) = None"
  "stream_live (sys_stream (sys_init b v)) (sys_backend (sys_init b v)) \<longleftrightarrow> \<not> is_closed b"
  by (simp_all add: sys_init_def newSyncRecordStream_def new_record_stream_def stream_live_def split: prod.split)

lemma open_close_one:
  assumes "signal_inv (on_change b)"
  shows "listeners (on_change (snd (stream_close (fst (newSyncRecordStream b v)) (snd (newSyncRecordStream b v))))) =
           listeners (on_change b) \<and>
         signal_inv (on_change (snd (stream_close (fst (newSyncRecordStream b v)) (snd (newSyncRecordStream b v)))))"
proof -
  obtain c sig where bd: "bind (on_change b) = (c, sig)" by (cases "bind (on_change b)")
  have "signal_inv sig" using signal_inv_bind [OF assms] bd by simp
  then show ?thesis
    using unbind_bind [OF assms bd] bd
    by (simp add: newSyncRecordStream_def new_record_stream_def stream_close_def sync_close_def signal_inv_unbind)
qed

lemma sys_init_backend_inv:
  assumes "backend_inv b"
  shows "backend_inv (sys_backend (sys_init b v))"
proof -
  obtain c sig where bd: "bind (on_change b) = (c, sig)" by (cases "bind (on_change b)") auto
  have "signal_inv sig" using signal_inv_bind [of "on_change b"] assms bd by (simp add: backend_inv_def)
  with assms bd show ?thesis
    by (simp add: sys_init_def newSyncRecordStream_def backend_inv_on_change)
qed

lemma stream_ended_step:
  assumes "stream_ended s" and "sys_step s e = Some s'"
  shows "stream_ended s' \<and> delivered s' = delivered s"
proof (cases e)
  case (EPut r)
  with assms show ?thesis
    by (auto simp: stream_ended_def dest: put_is_closed split: sum.splits prod.splits)
next
  case (ENext blk)
  with assms show ?thesis
    by (auto simp: stream_ended_def stream_next_def observe_def split: if_splits)
qed (use assms in \<open>auto simp: stream_ended_def sys_resume_def stream_close_def close_backend_def split: if_splits prod.splits\<close>)

lemma stream_ended_run:
  "stream_ended s \<Longrightarrow> sys_run s es = Some s' \<Longrightarrow> delivered s' = delivered s"
proof (induction es arbitrary: s)
  case Nil
  then show ?case by simp
next
  case (Cons e es)
  then obtain s1 where "sys_step s e = Some s1" and "sys_run s1 es = Some s'"
    by (auto split: option.splits)
  with Cons show ?case using stream_ended_step by metis
qed

lemma next_false_ended:
  assumes "sys_step s (ENext blk) = Some s1" and "last_outcome s1 = Some NextFalse"
  shows "stream_ended s1"
proof -
  obtain out T' where sn: "stream_next (sys_cancelled s) blk (sys_backend s) (sys_stream s) = (out, T')"
    and s1: "s1 = observe out (s\<lparr>sys_stream := T'\<rparr>)"
    using assms(1) by (auto split: if_splits prod.splits)
  with assms(2) have o: "out = NextFalse" by (simp add: observe_def split: next_outcome.splits)
  obtain res gs ls where rg: "run_generators (generators (sys_stream s)) (sys_backend s) blk (gen_state (sys_stream s)) = (res, gs, ls)"
    by (cases "run_generators (generators (sys_stream s)) (sys_backend s) blk (gen_state (sys_stream s))")
  have "generators T' = [] \<or> stream_closed T' \<or> stream_err T' \<noteq> None \<or> sys_cancelled s \<or> is_closed (sys_backend s)"
  proof (cases "stream_closed (sys_stream s) \<or> is_closed (sys_backend s) \<or> stream_err (sys_stream s) \<noteq> None \<or> sys_cancelled s")
    case True
    with sn show ?thesis by (auto simp: stream_next_def split: if_splits)
  next
    case False
    with sn rg o have "finish_next (res, gs, ls) (sys_stream s) = (NextFalse, T')"
      by (simp add: stream_next_def)
    with rg show ?thesis by (cases res) (auto dest: run_generators_GDone)
  qed
  with s1 o show ?thesis by (simp add: stream_ended_def observe_def)
qed

lemma puts_then_drain:
  assumes inv: "backend_inv b" and op: "\<not> is_closed b" and d: "distinct (map rec_key rs)"
    and room: "unat (last_version b) + length rs < 2 ^ 64"
  shows "\<exists>s'. sys_run (sys_init b (last_version b)) (map EPut rs @ replicate (Suc (length rs)) (ENext False)) = Some s' \<and>
           delivered s' = stamp (last_version b) rs \<and> last_outcome s' = Some NextFalse"
proof -
  let ?V = "last_version b"
  let ?s0 = "sys_init b ?V"
  have inv0: "backend_inv (sys_backend ?s0)"
    using sys_init_inv [OF inv order.refl] by (simp add: sys_inv_def)
  have lv: "last_version (sys_backend ?s0) = ?V" by (simp add: sys_init_fields)
  obtain b' where r1: "sys_run ?s0 (map EPut rs) = Some (?s0\<lparr>sys_backend := b'\<rparr>)"
    and i': "backend_inv b'" and c': "\<not> is_closed b'"
    and g: "get_since ?V b' = filter (\<lambda>x. rec_key x \<notin> set (map rec_key rs)) (get_since ?V (sys_backend ?s0)) @ stamp ?V rs"
    using sys_run_puts [OF inv0 _ _ d, of ?V] op room lv by (auto simp: sys_init_stream)
  have g': "get_since ?V b' = stamp ?V rs"
    using g get_since_last_version [OF inv0] lv by simp
  let ?s1 = "?s0\<lparr>sys_backend := b'\<rparr>"
  have live: "stream_live (sys_stream ?s1) (sys_backend ?s1)"
    using c' by (simp add: stream_live_def sys_init_stream)
  obtain s' where r2: "sys_run ?s1 (replicate (Suc (length (get_since ?V b'))) (ENext False)) = Some s'"
    and d': "delivered s' = delivered ?s1 @ get_since ?V b'" and o': "last_outcome s' = Some NextFalse"
    using sys_drain_fresh [of ?s1, OF _ _ live] i' by (auto simp: sys_init_stream)
  have "sys_run ?s0 (map EPut rs @ replicate (Suc (length rs)) (ENext False)) = Some s'"
    using r1 r2 g' by (simp add: sys_run_append)
  with d' o' g' show ?thesis by (simp add: sys_init_fields)
qed

text \<open>The definitions a concrete run of the system evaluates by.\<close>

lemmas sys_eval = sys_init_def newSyncRecordStream_def new_backend_def mkRecord_def Let_def
  sys_resume_def observe_def model_defs

section \<open>The scenario of spec section 8\<close>

text \<open>
  The concrete scenario of spec section 8 evaluated on the model: after \<open>Put(groupA)\<close>
  and \<open>Put(userB)\<close> on an empty store, \<open>getSince\<close> and tailing streams from cursors
  0, 1 and 2 return \<open>[groupA, userB]\<close>, \<open>[userB]\<close> and \<open>[]\<close>.
\<close>

lemma spec_scenario:
  "let b = snd (projr (put (mkRecord (PUser ''userB'' ''user B'' ''userB@example.com''))
              (snd (projr (put (mkRecord (PGroup ''groupA'' ''group A'' ''groupA@example.com'')) new_backend)))));
       ids = map (\<lambda>r. (rec_id r, rec_version r))
   in ids (get_since 0 b) = [(''groupA'', 1), (''userB'', 2)] \<and> ids (get_since 1 b) = [(''userB'', 2)] \<and>
      get_since 2 b = [] \<and>
      ids (fst (drain 3 False b (fst (newSyncRecordStream b 0)))) = [(''groupA'', 1), (''userB'', 2)] \<and>
      ids (fst (drain 3 False b (fst (newSyncRecordStream b 1)))) = [(''userB'', 2)] \<and>
      fst (drain 3 False b (fst (newSyncRecordStream b 2))) = []"
  by (simp add: sys_eval sync_gen_def sync_poll_def eval_nat_numeral)

end
