(* ===== verification/Backoff.thy ===== *)
theory Backoff
  imports Complex_Main
begin

text \<open>
  The directory-refresh backoff policy (spec section 4.4): the exponential backoff the
  identity manager keeps in \<open>directoryBackoff\<close>. Durations are Go \<open>time.Duration\<close>
  values in nanoseconds (\<open>int\<close>; they stay far below the \<open>int64\<close> range because the
  interval is capped); the multiplier and the randomization factor are the library's
  \<open>float64\<close> fields, modelled as exact rationals, and a float-to-duration conversion as
  \<open>floor\<close> (Go truncates, and the values are non-negative). \<open>NextBackOff\<close> draws a random
  number in \<open>[0, 1)\<close>; it is a parameter of the model. The elapsed-time limit is off in
  the manager (\<open>MaxElapsedTime = 0\<close>), so \<open>NextBackOff\<close> never returns \<open>Stop\<close>.
\<close>

record backoff =
  initial_interval :: int
  current_interval :: int
  randomization_factor :: rat
  multiplier :: rat
  max_interval :: int

text \<open>\<open>NewExponentialBackOff()\<close>: 500ms, factor 0.5, multiplier 1.5, cap 60s.\<close>

definition new_exponential_backoff :: backoff where
  "new_exponential_backoff =
     \<lparr>initial_interval = 500000000, current_interval = 500000000, randomization_factor = 1 / 2,
      multiplier = 3 / 2, max_interval = 60000000000\<rparr>"

text \<open>\<open>Reset()\<close>: back to the initial interval.\<close>

definition reset_backoff :: "backoff \<Rightarrow> backoff" where
  "reset_backoff b = b\<lparr>current_interval := initial_interval b\<rparr>"

text \<open>
  \<open>getRandomValueFromInterval(factor, random, current)\<close>: a value drawn from
  \<open>[current - delta, current + delta]\<close> with \<open>delta = factor * current\<close>; the current
  interval itself when the factor is zero.
\<close>

definition random_value :: "rat \<Rightarrow> rat \<Rightarrow> int \<Rightarrow> int" where
  "random_value f rnd cur =
     (if f = 0 then cur
      else (let delta = f * of_int cur; lo = of_int cur - delta; hi = of_int cur + delta
            in floor (lo + rnd * (hi - lo + 1))))"

text \<open>\<open>incrementCurrentInterval()\<close>: multiply, or jump to the cap once the product would pass it.\<close>

definition increment_interval :: "backoff \<Rightarrow> backoff" where
  "increment_interval b =
     (if of_int (max_interval b) / multiplier b \<le> of_int (current_interval b)
      then b\<lparr>current_interval := max_interval b\<rparr>
      else b\<lparr>current_interval := floor (of_int (current_interval b) * multiplier b)\<rparr>)"

text \<open>\<open>NextBackOff()\<close>: the randomized current interval, then the increment.\<close>

definition next_backoff :: "rat \<Rightarrow> backoff \<Rightarrow> int \<times> backoff" where
  "next_backoff rnd b = (random_value (randomization_factor b) rnd (current_interval b), increment_interval b)"

text \<open>
  Well-formedness: a positive initial interval no larger than the cap, the current
  interval between them, and a multiplier that makes every step below the cap grow.
\<close>

definition backoff_inv :: "backoff \<Rightarrow> bool" where
  "backoff_inv b \<longleftrightarrow>
     0 < initial_interval b \<and> initial_interval b \<le> current_interval b \<and>
     current_interval b \<le> max_interval b \<and> 1 < multiplier b \<and>
     1 \<le> (multiplier b - 1) * of_int (initial_interval b)"

section \<open>Growth, cap and reset\<close>

lemma increment_le_max:
  "backoff_inv b \<Longrightarrow> current_interval (increment_interval b) \<le> max_interval b"
proof -
  assume inv: "backoff_inv b"
  show ?thesis
  proof (cases "of_int (max_interval b) / multiplier b \<le> of_int (current_interval b)")
    case True
    then show ?thesis by (simp add: increment_interval_def)
  next
    case False
    have m: "0 < multiplier b" using inv by (simp add: backoff_inv_def)
    from False have "of_int (current_interval b) * multiplier b < of_int (max_interval b)"
      using m by (simp add: not_le pos_less_divide_eq)
    then have "floor (of_int (current_interval b) * multiplier b) < max_interval b"
      by (simp add: floor_less_iff)
    with False show ?thesis by (simp add: increment_interval_def)
  qed
qed

lemma increment_grows:
  assumes inv: "backoff_inv b" and lt: "current_interval b < max_interval b"
  shows "current_interval b < current_interval (increment_interval b)"
proof (cases "of_int (max_interval b) / multiplier b \<le> of_int (current_interval b)")
  case True
  with lt show ?thesis by (simp add: increment_interval_def)
next
  case False
  let ?c = "of_int (current_interval b) :: rat" and ?m = "multiplier b"
  have "(?m - 1) * of_int (initial_interval b) \<le> (?m - 1) * ?c"
    using inv by (intro mult_left_mono) (simp_all add: backoff_inv_def)
  moreover have "1 \<le> (?m - 1) * of_int (initial_interval b)" using inv by (simp add: backoff_inv_def)
  ultimately have "1 \<le> (?m - 1) * ?c" by linarith
  then have "?c + 1 \<le> ?c * ?m" by (simp add: algebra_simps)
  then have "current_interval b + 1 \<le> floor (?c * ?m)"
    by (simp add: le_floor_iff)
  with False show ?thesis by (simp add: increment_interval_def)
qed

lemma increment_mono:
  assumes inv: "backoff_inv b"
  shows "current_interval b \<le> current_interval (increment_interval b)"
proof (cases "current_interval b < max_interval b")
  case True
  with increment_grows [OF inv] show ?thesis by simp
next
  case False
  then have eq: "current_interval b = max_interval b" using inv by (simp add: backoff_inv_def)
  have m: "1 < multiplier b" and pos: "0 \<le> max_interval b" using inv by (auto simp: backoff_inv_def)
  have "of_int (max_interval b) / multiplier b \<le> of_int (max_interval b)"
  proof -
    have "of_int (max_interval b) * 1 \<le> of_int (max_interval b) * multiplier b"
      using m pos by (intro mult_left_mono) simp_all
    then show ?thesis using m by (simp add: divide_le_eq)
  qed
  with eq show ?thesis by (simp add: increment_interval_def)
qed

lemma backoff_inv_increment:
  assumes inv: "backoff_inv b"
  shows "backoff_inv (increment_interval b)"
proof -
  have "initial_interval (increment_interval b) = initial_interval b \<and>
      max_interval (increment_interval b) = max_interval b \<and> multiplier (increment_interval b) = multiplier b"
    by (simp add: increment_interval_def)
  then show ?thesis
    using inv increment_mono [OF inv] increment_le_max [OF inv] by (simp add: backoff_inv_def)
qed

lemma backoff_inv_reset: "backoff_inv b \<Longrightarrow> backoff_inv (reset_backoff b)"
  by (simp add: backoff_inv_def reset_backoff_def)

lemma random_value_zero [simp]: "random_value 0 rnd cur = cur"
  by (simp add: random_value_def)

end
