(* ===== verification/Scheduler.thy ===== *)
theory Scheduler
  imports Main "HOL-Library.Char_ord" "HOL-Library.List_Lexorder" "HOL-Library.Product_Lexorder"
begin

text \<open>
  The per-entity refresh scheduler (spec sections 3 and 4.5): entries \<open>(due time, id)\<close>
  kept in ascending order of due time, ties broken by id, at most one entry per id, as the
  ordered tree of the implementation keeps them. Times are nanoseconds (\<open>int\<close>). The
  abstract view of a schedule is the map from id to due time (\<open>sched_abs\<close>); each operation
  is shown to implement the corresponding map operation, and \<open>Next\<close> to return the
  least entry.
\<close>

type_synonym schedule = "(int \<times> string) list"

text \<open>\<open>Add(at, key)\<close>: insert-or-replace.\<close>

definition schedule_add :: "string \<Rightarrow> int \<Rightarrow> schedule \<Rightarrow> schedule" where
  "schedule_add i t s = insort (t, i) (filter (\<lambda>e. snd e \<noteq> i) s)"

text \<open>\<open>Remove(key)\<close>.\<close>

definition schedule_remove :: "string \<Rightarrow> schedule \<Rightarrow> schedule" where
  "schedule_remove i s = filter (\<lambda>e. snd e \<noteq> i) s"

text \<open>\<open>Next()\<close>: peek at the earliest entry, if any.\<close>

definition schedule_next :: "schedule \<Rightarrow> (int \<times> string) option" where
  "schedule_next s = (case s of [] \<Rightarrow> None | e # _ \<Rightarrow> Some e)"

text \<open>\<open>Pop()\<close>: remove and return the earliest entry.\<close>

definition schedule_pop :: "schedule \<Rightarrow> (int \<times> string) option \<times> schedule" where
  "schedule_pop s = (case s of [] \<Rightarrow> (None, []) | e # es \<Rightarrow> (Some e, es))"

definition sched_inv :: "schedule \<Rightarrow> bool" where
  "sched_inv s \<longleftrightarrow> sorted s \<and> distinct (map snd s)"

definition sched_abs :: "schedule \<Rightarrow> string \<Rightarrow> int option" where
  "sched_abs s = map_of (map (\<lambda>(t, i). (i, t)) s)"

lemmas schedule_defs = schedule_add_def schedule_remove_def schedule_next_def schedule_pop_def

section \<open>Invariant\<close>

lemma sched_inv_remove: "sched_inv s \<Longrightarrow> sched_inv (schedule_remove i s)"
  by (simp add: sched_inv_def schedule_remove_def sorted_wrt_filter distinct_map_filter)

lemma snd_set_insort: "set (map snd (insort e xs)) = insert (snd e) (set (map snd xs))"
  by (simp add: set_insort_key)

lemma distinct_snd_insort:
  "snd e \<notin> set (map snd xs) \<Longrightarrow> distinct (map snd xs) \<Longrightarrow> distinct (map snd (insort e xs))"
  by (induction xs) (auto simp: set_insort_key)

lemma sched_inv_add: "sched_inv s \<Longrightarrow> sched_inv (schedule_add i t s)"
  unfolding sched_inv_def schedule_add_def
  by (auto simp: sorted_insort sorted_wrt_filter distinct_map_filter intro!: distinct_snd_insort)

lemma sched_inv_pop: "sched_inv s \<Longrightarrow> sched_inv (snd (schedule_pop s))"
  by (cases s) (simp_all add: sched_inv_def schedule_pop_def)

section \<open>Refinement of the map view\<close>

lemma swap_fst: "fst \<circ> (\<lambda>(t, i). (i, t)) = snd"
  by auto

lemma sched_abs_Some:
  "distinct (map snd s) \<Longrightarrow> sched_abs s i = Some t \<longleftrightarrow> (t, i) \<in> set s"
  unfolding sched_abs_def by (subst map_of_eq_Some_iff) (auto simp: swap_fst)

lemma sched_abs_None: "sched_abs s i = None \<longleftrightarrow> i \<notin> set (map snd s)"
  unfolding sched_abs_def by (auto simp: map_of_eq_None_iff image_iff)

lemma option_eqI_Some: "(\<And>t. x = Some t \<longleftrightarrow> y = Some t) \<Longrightarrow> x = y"
  by (cases x; cases y) auto

lemma sched_abs_remove:
  assumes "sched_inv s"
  shows "sched_abs (schedule_remove i s) = (sched_abs s)(i := None)"
proof (rule ext, rule option_eqI_Some)
  fix j t
  have d: "distinct (map snd s)" and d': "distinct (map snd (schedule_remove i s))"
    using assms sched_inv_remove [OF assms] by (simp_all add: sched_inv_def)
  show "sched_abs (schedule_remove i s) j = Some t \<longleftrightarrow> ((sched_abs s)(i := None)) j = Some t"
    using sched_abs_Some [OF d] sched_abs_Some [OF d'] by (auto simp: schedule_remove_def)
qed

lemma sched_abs_add:
  assumes "sched_inv s"
  shows "sched_abs (schedule_add i t s) = (sched_abs s)(i \<mapsto> t)"
proof (rule ext, rule option_eqI_Some)
  fix j u
  have d: "distinct (map snd s)" and d': "distinct (map snd (schedule_add i t s))"
    using assms sched_inv_add [OF assms] by (simp_all add: sched_inv_def)
  show "sched_abs (schedule_add i t s) j = Some u \<longleftrightarrow> ((sched_abs s)(i \<mapsto> t)) j = Some u"
    using sched_abs_Some [OF d] sched_abs_Some [OF d'] by (auto simp: schedule_add_def set_insort_key)
qed

lemma sched_abs_pop:
  assumes "sched_inv s" and "schedule_pop s = (Some (t, i), s')"
  shows "sched_abs s i = Some t \<and> sched_abs s' = (sched_abs s)(i := None)"
proof -
  obtain es where s: "s = (t, i) # es" and s': "s' = es"
    using assms(2) by (cases s) (auto simp: schedule_pop_def)
  have "i \<notin> set (map snd es)" using assms(1) s by (simp add: sched_inv_def)
  then show ?thesis using s s' by (auto simp: sched_abs_def fun_eq_iff map_of_eq_None_iff image_iff)
qed

section \<open>Next returns the least entry\<close>

lemma schedule_next_Min:
  "sched_inv s \<Longrightarrow> schedule_next s = (if s = [] then None else Some (Min (set s)))"
proof (cases s)
  case (Cons e es)
  assume "sched_inv s"
  then have "\<forall>x\<in>set es. e \<le> x" using Cons by (simp add: sched_inv_def)
  then have "Min (set s) = e" using Cons by (intro Min_eqI) auto
  with Cons show ?thesis by (simp add: schedule_next_def)
qed (simp add: schedule_next_def)

lemma schedule_next_least:
  assumes "sched_inv s" and "schedule_next s = Some (t, i)"
  shows "sched_abs s i = Some t \<and> (\<forall>j u. sched_abs s j = Some u \<longrightarrow> (t, i) \<le> (u, j))"
proof -
  have d: "distinct (map snd s)" using assms(1) by (simp add: sched_inv_def)
  have ne: "s \<noteq> []" and m: "Min (set s) = (t, i)"
    using assms schedule_next_Min [OF assms(1)] by (auto split: if_splits)
  then have "(t, i) \<in> set s" by (metis List.finite_set Min_in set_empty)
  moreover have "(t, i) \<le> (u, j)" if "(u, j) \<in> set s" for u j
    using that m by (metis List.finite_set Min_le)
  ultimately show ?thesis using sched_abs_Some [OF d] by blast
qed

lemma schedule_next_None: "schedule_next s = None \<longleftrightarrow> sched_abs s = Map.empty"
  by (cases s) (auto simp: schedule_next_def sched_abs_def)

lemma schedule_next_pop:
  "schedule_next s = Some e \<Longrightarrow> \<exists>s'. schedule_pop s = (Some e, s')"
  by (cases s) (auto simp: schedule_next_def schedule_pop_def)

end
