(* ===== verification/Manager.thy ===== *)
theory Manager
  imports Backend Backoff Scheduler
begin

text \<open>
  The identity manager (spec sections 4.6 and 7): its caches of directory groups,
  directory users, sessions and platform users, the per-user refresh schedule, and the
  directory-wide backoff. Caches are Go maps, modelled as partial functions; the session
  cache is keyed by \<open>(userID, sessionID)\<close>. The clock is the configured \<open>now()\<close>
  (\<open>WithNow\<close>), read as the constant \<open>clock\<close>. Provider calls are inputs: a
  \<open>UserGroups\<close> result is an error message or the groups and users returned, a
  \<open>User\<close> result an error or the refreshed message. The operations are \<open>New\<close>,
  ingestion, the directory-wide refresh and its driver, one step of the per-user refresh
  and the per-user driver \<open>refresh_due\<close> (a partial function); the lemmas give the
  invariant \<open>manager_inv\<close>, the driver's progress measure and divergence, and the
  typing of the caches.
\<close>

record manager =
  refresh_interval :: int
  clock :: int
  directory_backoff :: backoff
  directoryGroups :: "string \<Rightarrow> payload option"
  directoryUsers :: "string \<Rightarrow> payload option"
  sessions :: "string \<times> string \<Rightarrow> payload option"
  users :: "string \<Rightarrow> payload option"
  userScheduler :: schedule

type_synonym user_groups_result = "string + payload list \<times> payload list"

text \<open>
  \<open>New(WithGroupRefreshInterval(h), WithNow(now))\<close>: empty caches and schedule, and the
  library's exponential backoff with its cap pinned to the refresh interval (spec sections
  3 and 4.6).
\<close>

definition new_manager :: "int \<Rightarrow> int \<Rightarrow> manager" where
  "new_manager h now =
     \<lparr>refresh_interval = h, clock = now,
      directory_backoff = new_exponential_backoff\<lparr>max_interval := h\<rparr>,
      directoryGroups = Map.empty, directoryUsers = Map.empty, sessions = Map.empty,
      users = Map.empty, userScheduler = []\<rparr>"

text \<open>
  \<open>onUpdateUser\<close>: unschedule the user; on a tombstone drop it, otherwise store it and
  schedule its refresh at \<open>now() + refresh interval\<close>.
\<close>

definition on_update_user :: "manager \<Rightarrow> bool \<Rightarrow> string \<Rightarrow> payload \<Rightarrow> manager" where
  "on_update_user m del i p =
     (let s = schedule_remove i (userScheduler m)
      in if del then m\<lparr>users := (users m)(i := None), userScheduler := s\<rparr>
         else m\<lparr>users := (users m)(i \<mapsto> p),
                userScheduler := schedule_add i (clock m + refresh_interval m) s\<rparr>)"

text \<open>
  One record of \<open>onUpdateRecords\<close>: dispatch on the record's type URL; a record whose
  data does not unmarshal to that type, or of any other type, is skipped.
\<close>

definition on_update_record :: "manager \<Rightarrow> dbrecord \<Rightarrow> manager" where
  "on_update_record m r =
     (let t = rec_type r; del = rec_deleted r; p = rec_data r in
      if t = ''type.googleapis.com/directory.Group'' then
        (case p of PGroup i _ _ \<Rightarrow> m\<lparr>directoryGroups := (directoryGroups m)(i := if del then None else Some p)\<rparr>
         | _ \<Rightarrow> m)
      else if t = ''type.googleapis.com/directory.User'' then
        (case p of PDirUser i _ _ _ \<Rightarrow> m\<lparr>directoryUsers := (directoryUsers m)(i := if del then None else Some p)\<rparr>
         | _ \<Rightarrow> m)
      else if t = ''type.googleapis.com/session.Session'' then
        (case p of PSession sid uid \<Rightarrow> m\<lparr>sessions := (sessions m)((uid, sid) := if del then None else Some p)\<rparr>
         | _ \<Rightarrow> m)
      else if t = ''type.googleapis.com/user.User'' then
        (case p of PUser i _ _ \<Rightarrow> on_update_user m del i p | _ \<Rightarrow> m)
      else m)"

definition onUpdateRecords :: "manager \<Rightarrow> dbrecord list \<Rightarrow> manager" where
  "onUpdateRecords m rs = foldl on_update_record m rs"

text \<open>
  Writing the directory's groups and users to the store, one \<open>Put\<close> each; a failed
  \<open>Put\<close> (closed store) is logged and skipped.
\<close>

fun put_all :: "dbrecord list \<Rightarrow> backend \<Rightarrow> backend" where
  "put_all [] b = b"
| "put_all (r # rs) b = put_all rs (case put r b of Inl _ \<Rightarrow> b | Inr (_, b') \<Rightarrow> b')"

text \<open>
  \<open>refreshDirectoryUserGroups\<close>: on a provider error, advance the backoff and wait for
  the smaller of the refresh interval and the backoff; on success, reset the backoff,
  write the groups and users to the store, and wait a full refresh interval.
\<close>

definition refreshDirectoryUserGroups ::
  "user_groups_result \<Rightarrow> rat \<Rightarrow> manager \<Rightarrow> backend \<Rightarrow> int \<times> manager \<times> backend" where
  "refreshDirectoryUserGroups res rnd m b =
     (case res of
        Inl _ \<Rightarrow>
          (let (d, bo) = next_backoff rnd (directory_backoff m)
           in (min (refresh_interval m) d, m\<lparr>directory_backoff := bo\<rparr>, b))
      | Inr (gs, us) \<Rightarrow>
          (refresh_interval m, m\<lparr>directory_backoff := reset_backoff (directory_backoff m)\<rparr>,
           put_all (map mkRecord (gs @ us)) b))"

text \<open>The directory-refresh driver: one refresh per provider outcome, collecting the delays.\<close>

fun refresh_loop ::
  "user_groups_result list \<Rightarrow> rat \<Rightarrow> manager \<Rightarrow> backend \<Rightarrow> int list \<times> manager \<times> backend" where
  "refresh_loop [] rnd m b = ([], m, b)"
| "refresh_loop (res # rs) rnd m b =
     (let (d, m', b') = refreshDirectoryUserGroups res rnd m b;
          (ds, m'', b'') = refresh_loop rs rnd m' b'
      in (d # ds, m'', b''))"

text \<open>
  One step of the per-user refresh driver (spec section 4.6): when the earliest entry of
  the user scheduler is due at the manager's clock, pop it; if the user is still cached,
  refresh it through the provider's \<open>User\<close> capability and schedule the same id again
  one refresh interval later, whatever the outcome; a user no longer cached is dropped.
  The refresh is symmetric with the directory-wide one (spec section 9): a result is
  written to the store with \<open>Put\<close> and reaches the caches through ingestion, which is
  their only writer (spec section 3); an error writes nothing.
\<close>

definition refresh_user_tick ::
  "(string \<Rightarrow> string + payload) \<Rightarrow> manager \<Rightarrow> backend \<Rightarrow> manager \<times> backend" where
  "refresh_user_tick fetch m b =
     (case schedule_pop (userScheduler m) of
        (Some (t, i), s') \<Rightarrow>
          if clock m < t then (m, b)
          else (case users m i of
                  None \<Rightarrow> (m\<lparr>userScheduler := s'\<rparr>, b)
                | Some _ \<Rightarrow>
                    (m\<lparr>userScheduler := schedule_add i (clock m + refresh_interval m) s'\<rparr>,
                     case fetch i of Inl _ \<Rightarrow> b | Inr u \<Rightarrow> put_all [mkRecord u] b))
      | (None, _) \<Rightarrow> (m, b))"

text \<open>
  The per-user refresh driver at one instant: refresh due users until the earliest entry
  lies in the future. It need not return (a non-positive interval reschedules a user
  as due again), so it is a partial function whose \<open>None\<close> is divergence.
\<close>

partial_function (option) refresh_due ::
  "(string \<Rightarrow> string + payload) \<Rightarrow> manager \<Rightarrow> backend \<Rightarrow> (manager \<times> backend) option" where
  "refresh_due fetch m b =
     (case schedule_next (userScheduler m) of
        Some (t, _) \<Rightarrow>
          if t \<le> clock m then (case refresh_user_tick fetch m b of (m', b') \<Rightarrow> refresh_due fetch m' b')
          else Some (m, b)
      | None \<Rightarrow> Some (m, b))"

text \<open>The number of entries due at the manager's clock: the driver's termination measure.\<close>

definition due_count :: "manager \<Rightarrow> nat" where
  "due_count m = length (filter (\<lambda>e. fst e \<le> clock m) (userScheduler m))"

text \<open>Entries due at \<open>c\<close> move to \<open>c + h\<close>; the others stay.\<close>

definition advance_due :: "int \<Rightarrow> int \<Rightarrow> (string \<Rightarrow> int option) \<Rightarrow> string \<Rightarrow> int option" where
  "advance_due c h a = (\<lambda>i. map_option (\<lambda>t. if t \<le> c then c + h else t) (a i))"

text \<open>
  The manager's invariant: a well-formed backoff capped at the refresh interval, with
  randomization off (the deterministic configuration of spec section 8), and a
  well-formed schedule that holds exactly the cached platform users.
\<close>

definition manager_inv :: "manager \<Rightarrow> bool" where
  "manager_inv m \<longleftrightarrow>
     backoff_inv (directory_backoff m) \<and> max_interval (directory_backoff m) = refresh_interval m \<and>
     randomization_factor (directory_backoff m) = 0 \<and> sched_inv (userScheduler m) \<and>
     dom (sched_abs (userScheduler m)) = dom (users m)"

text \<open>The four caches, which only ingestion writes (spec sections 3 and 5).\<close>

definition manager_caches ::
  "manager \<Rightarrow> (string \<Rightarrow> payload option) \<times> (string \<Rightarrow> payload option) \<times>
              (string \<times> string \<Rightarrow> payload option) \<times> (string \<Rightarrow> payload option)" where
  "manager_caches m = (directoryGroups m, directoryUsers m, sessions m, users m)"

text \<open>
  The caches are typed as Go's maps are: each maps an id to a message of its kind whose
  \<open>GetId()\<close> is that id, and a session is stored under its own user and session ids.
\<close>

definition cache_wt :: "manager \<Rightarrow> bool" where
  "cache_wt m \<longleftrightarrow>
     (\<forall>i p. directoryGroups m i = Some p \<longrightarrow> (case p of PGroup _ _ _ \<Rightarrow> payload_id p = i | _ \<Rightarrow> False)) \<and>
     (\<forall>i p. directoryUsers m i = Some p \<longrightarrow> (case p of PDirUser _ _ _ _ \<Rightarrow> payload_id p = i | _ \<Rightarrow> False)) \<and>
     (\<forall>u s p. sessions m (u, s) = Some p \<longrightarrow> p = PSession s u) \<and>
     (\<forall>i p. users m i = Some p \<longrightarrow> (case p of PUser _ _ _ \<Rightarrow> payload_id p = i | _ \<Rightarrow> False))"

section \<open>Invariant and refresh behaviour\<close>

lemma manager_invD:
  assumes "manager_inv m"
  shows "backoff_inv (directory_backoff m)" "max_interval (directory_backoff m) = refresh_interval m"
    "randomization_factor (directory_backoff m) = 0" "sched_inv (userScheduler m)"
    "dom (sched_abs (userScheduler m)) = dom (users m)"
  using assms by (simp_all add: manager_inv_def)

lemma refresh_fail:
  assumes "manager_inv m"
  shows "refreshDirectoryUserGroups (Inl e) rnd m b =
           (current_interval (directory_backoff m), m\<lparr>directory_backoff := increment_interval (directory_backoff m)\<rparr>, b)"
proof -
  have "current_interval (directory_backoff m) \<le> refresh_interval m"
    using manager_invD [OF assms] by (simp add: backoff_inv_def)
  then show ?thesis
    using manager_invD (3) [OF assms] by (simp add: refreshDirectoryUserGroups_def next_backoff_def)
qed

lemma refresh_ok:
  "refreshDirectoryUserGroups (Inr (gs, us)) rnd m b =
     (refresh_interval m, m\<lparr>directory_backoff := reset_backoff (directory_backoff m)\<rparr>, put_all (map mkRecord (gs @ us)) b)"
  by (simp add: refreshDirectoryUserGroups_def)

lemma manager_inv_backoff:
  "manager_inv m \<Longrightarrow> backoff_inv bo \<Longrightarrow> max_interval bo = max_interval (directory_backoff m) \<Longrightarrow>
   randomization_factor bo = 0 \<Longrightarrow> manager_inv (m\<lparr>directory_backoff := bo\<rparr>)"
  by (simp add: manager_inv_def)

lemma manager_inv_refresh:
  assumes inv: "manager_inv m" and r: "refreshDirectoryUserGroups res rnd m b = (d, m', b')"
  shows "manager_inv m' \<and> refresh_interval m' = refresh_interval m \<and> 0 < d \<and> d \<le> refresh_interval m"
proof (cases res)
  case (Inl e)
  have bi: "backoff_inv (directory_backoff m)" using manager_invD [OF inv] by simp
  have "0 < current_interval (directory_backoff m) \<and> current_interval (directory_backoff m) \<le> refresh_interval m"
    using manager_invD [OF inv] by (auto simp: backoff_inv_def)
  moreover have "manager_inv (m\<lparr>directory_backoff := increment_interval (directory_backoff m)\<rparr>)"
    using inv backoff_inv_increment [OF bi]
    by (rule manager_inv_backoff) (simp_all add: increment_interval_def manager_invD [OF inv])
  ultimately show ?thesis using r Inl refresh_fail [OF inv] by auto
next
  case (Inr x)
  obtain gs us where x: "x = (gs, us)" by (cases x)
  have bi: "backoff_inv (directory_backoff m)" using manager_invD [OF inv] by simp
  have "manager_inv (m\<lparr>directory_backoff := reset_backoff (directory_backoff m)\<rparr>)"
    using inv backoff_inv_reset [OF bi]
    by (rule manager_inv_backoff) (simp_all add: reset_backoff_def manager_invD [OF inv])
  moreover have "0 < refresh_interval m"
    using manager_invD [OF inv] by (auto simp: backoff_inv_def)
  ultimately show ?thesis using r Inr x refresh_ok by auto
qed

lemma refresh_loop_append:
  "refresh_loop (xs @ ys) rnd m b =
     (let (ds1, m1, b1) = refresh_loop xs rnd m b; (ds2, m2, b2) = refresh_loop ys rnd m1 b1
      in (ds1 @ ds2, m2, b2))"
  by (induction xs arbitrary: m b) (simp_all add: split_def Let_def)

lemma refresh_loop_inv:
  "manager_inv m \<Longrightarrow> refresh_loop os rnd m b = (ds, m', b') \<Longrightarrow>
   manager_inv m' \<and> refresh_interval m' = refresh_interval m \<and> (\<forall>d\<in>set ds. 0 < d \<and> d \<le> refresh_interval m)"
proof (induction os arbitrary: m b ds)
  case Nil
  then show ?case by simp
next
  case (Cons res os)
  obtain d m1 b1 where r: "refreshDirectoryUserGroups res rnd m b = (d, m1, b1)"
    by (cases "refreshDirectoryUserGroups res rnd m b") auto
  obtain ds1 where r1: "refresh_loop os rnd m1 b1 = (ds1, m', b')" and ds: "ds = d # ds1"
    using Cons.prems(2) r by (auto split: prod.splits)
  from manager_inv_refresh [OF Cons.prems(1) r] Cons.IH [of m1 b1 ds1] r1 ds show ?case by auto
qed

lemma on_update_user_sched:
  assumes "sched_inv (userScheduler m)"
  shows "sched_abs (userScheduler (on_update_user m del i p)) =
           (if del then (sched_abs (userScheduler m))(i := None)
            else (sched_abs (userScheduler m))(i \<mapsto> clock m + refresh_interval m))"
  using assms by (simp add: on_update_user_def Let_def sched_abs_remove sched_abs_add sched_inv_remove)

lemma manager_inv_on_update_user:
  assumes inv: "manager_inv m"
  shows "manager_inv (on_update_user m del i p)"
proof -
  have si: "sched_inv (userScheduler m)" using manager_invD [OF inv] by simp
  have "sched_inv (userScheduler (on_update_user m del i p))"
    using si by (simp add: on_update_user_def Let_def sched_inv_remove sched_inv_add)
  moreover have "dom (sched_abs (userScheduler (on_update_user m del i p))) = dom (users (on_update_user m del i p))"
    using on_update_user_sched [OF si, of del i p] manager_invD (5) [OF inv]
    by (simp add: on_update_user_def Let_def)
  ultimately show ?thesis using inv by (simp add: manager_inv_def on_update_user_def Let_def)
qed

lemma on_update_record_cases:
  "on_update_record m r = m \<or> (\<exists>g. on_update_record m r = m\<lparr>directoryGroups := g\<rparr>) \<or>
   (\<exists>g. on_update_record m r = m\<lparr>directoryUsers := g\<rparr>) \<or> (\<exists>g. on_update_record m r = m\<lparr>sessions := g\<rparr>) \<or>
   (\<exists>i p. on_update_record m r = on_update_user m (rec_deleted r) i p)"
  by (simp add: on_update_record_def Let_def split: payload.split) blast

lemma manager_inv_caches [simp]:
  "manager_inv (m\<lparr>directoryGroups := g\<rparr>) = manager_inv m"
  "manager_inv (m\<lparr>directoryUsers := g\<rparr>) = manager_inv m"
  "manager_inv (m\<lparr>sessions := h\<rparr>) = manager_inv m"
  by (simp_all add: manager_inv_def)

lemma manager_inv_on_update_record: "manager_inv m \<Longrightarrow> manager_inv (on_update_record m r)"
  using on_update_record_cases [of m r]
  by (elim disjE exE) (simp_all add: manager_inv_on_update_user)

lemma manager_inv_onUpdateRecords: "manager_inv m \<Longrightarrow> manager_inv (onUpdateRecords m rs)"
  unfolding onUpdateRecords_def
  by (induction rs arbitrary: m) (simp_all add: manager_inv_on_update_record)

lemma refresh_loop_initial:
  "refresh_loop os rnd m b = (ds, m', b') \<Longrightarrow>
   initial_interval (directory_backoff m') = initial_interval (directory_backoff m)"
proof (induction os arbitrary: m b ds)
  case (Cons res os)
  then show ?case
    by (auto simp: refreshDirectoryUserGroups_def next_backoff_def increment_interval_def reset_backoff_def
        split: sum.splits prod.splits)
qed simp

lemma on_update_record_skip:
  "rec_type r \<noteq> type_url (rec_data r) \<or> rec_data r = POpaque t d \<Longrightarrow> on_update_record m r = m"
  by (cases "rec_data r") (auto simp: on_update_record_def Let_def)

lemma manager_inv_clock [simp]: "manager_inv (m\<lparr>clock := c\<rparr>) = manager_inv m"
  by (simp add: manager_inv_def)

lemma user_tick_due:
  assumes si: "sched_inv (userScheduler m)" and dm: "dom (sched_abs (userScheduler m)) = dom (users m)"
    and nx: "schedule_next (userScheduler m) = Some (t, i)" and due: "t \<le> clock m"
  shows "\<exists>u s'. schedule_pop (userScheduler m) = (Some (t, i), s') \<and> users m i = Some u \<and>
           refresh_user_tick fetch m b =
             (m\<lparr>userScheduler := schedule_add i (clock m + refresh_interval m) s'\<rparr>,
              case fetch i of Inl _ \<Rightarrow> b | Inr u' \<Rightarrow> put_all [mkRecord u'] b)"
proof -
  obtain s' where p: "schedule_pop (userScheduler m) = (Some (t, i), s')" using schedule_next_pop [OF nx] by blast
  have "sched_abs (userScheduler m) i = Some t"
    using schedule_next_least [OF si nx] by blast
  then obtain u where u: "users m i = Some u" using dm by blast
  show ?thesis using p u due by (auto simp: refresh_user_tick_def)
qed

text \<open>Only the schedule changes: the caches are left to ingestion.\<close>

lemma user_tick_frame:
  "fst (refresh_user_tick fetch m b) = m\<lparr>userScheduler := userScheduler (fst (refresh_user_tick fetch m b))\<rparr>"
  by (simp add: refresh_user_tick_def split: prod.split option.split)

lemma user_tick_frameE:
  obtains s where "fst (refresh_user_tick fetch m b) = m\<lparr>userScheduler := s\<rparr>"
  using user_tick_frame by blast

lemma user_tick_not_due:
  "schedule_next (userScheduler m) = Some (t, i) \<Longrightarrow> clock m < t \<Longrightarrow> refresh_user_tick fetch m b = (m, b)"
  by (drule schedule_next_pop) (auto simp: refresh_user_tick_def)

lemma user_tick_due_sched:
  assumes si: "sched_inv (userScheduler m)" and dm: "dom (sched_abs (userScheduler m)) = dom (users m)"
    and nx: "schedule_next (userScheduler m) = Some (t, i)" and due: "t \<le> clock m"
  shows "sched_abs (userScheduler (fst (refresh_user_tick fetch m b))) =
           (sched_abs (userScheduler m))(i \<mapsto> clock m + refresh_interval m) \<and>
         sched_inv (userScheduler (fst (refresh_user_tick fetch m b))) \<and>
         dom (sched_abs (userScheduler (fst (refresh_user_tick fetch m b)))) = dom (users m)"
proof -
  from user_tick_due [OF si dm nx due, of fetch b]
  obtain u s' where pp: "schedule_pop (userScheduler m) = (Some (t, i), s')" and u: "users m i = Some u"
    and r: "fst (refresh_user_tick fetch m b) = m\<lparr>userScheduler := schedule_add i (clock m + refresh_interval m) s'\<rparr>"
    by auto
  have si': "sched_inv s'" using sched_inv_pop [OF si] pp by simp
  have ab: "sched_abs (userScheduler (fst (refresh_user_tick fetch m b))) =
           (sched_abs (userScheduler m))(i \<mapsto> clock m + refresh_interval m)"
    using r sched_abs_add [OF si'] sched_abs_pop [OF si pp] by simp
  moreover have "dom ((sched_abs (userScheduler m))(i \<mapsto> clock m + refresh_interval m)) = dom (users m)"
    using u dm by auto
  ultimately show ?thesis using r sched_inv_add [OF si'] by simp
qed

lemma manager_inv_user_tick:
  assumes inv: "manager_inv m"
  shows "manager_inv (fst (refresh_user_tick fetch m b))"
proof (cases "schedule_next (userScheduler m)")
  case None
  then have "userScheduler m = []" by (cases "userScheduler m") (simp_all add: schedule_next_def)
  then show ?thesis using inv by (simp add: refresh_user_tick_def schedule_pop_def)
next
  case (Some e)
  obtain t i where e: "e = (t, i)" by (cases e)
  show ?thesis
  proof (cases "t \<le> clock m")
    case False
    with inv Some e user_tick_not_due show ?thesis by simp
  next
    case True
    note sch = user_tick_due_sched [OF manager_invD(4,5) [OF inv] Some [unfolded e] True, of fetch b]
    have "sched_abs (userScheduler m) i = Some t"
      using schedule_next_least [OF manager_invD(4) [OF inv] Some [unfolded e]] by blast
    moreover obtain s where "fst (refresh_user_tick fetch m b) = m\<lparr>userScheduler := s\<rparr>" by (rule user_tick_frameE)
    ultimately show ?thesis using inv sch manager_invD(5) [OF inv] by (auto simp: manager_inv_def)
  qed
qed

section \<open>The per-user refresh driver\<close>

lemma due_count_tick:
  assumes inv: "manager_inv m" and nx: "schedule_next (userScheduler m) = Some (t, i)" and due: "t \<le> clock m"
  shows "due_count (fst (refresh_user_tick fetch m b)) < due_count m"
proof -
  obtain es where s: "userScheduler m = (t, i) # es"
    using nx by (cases "userScheduler m") (auto simp: schedule_next_def)
  have h: "0 < refresh_interval m" using manager_invD [OF inv] by (auto simp: backoff_inv_def)
  have "i \<notin> set (map snd es)" using manager_invD(4) [OF inv] s by (simp add: sched_inv_def)
  then have f: "filter (\<lambda>e. snd e \<noteq> i) es = es" by (auto simp: filter_id_conv)
  from user_tick_due [OF manager_invD(4,5) [OF inv] nx due, of fetch b] s
  have "fst (refresh_user_tick fetch m b) = m\<lparr>userScheduler := insort (clock m + refresh_interval m, i) es\<rparr>"
    by (auto simp: schedule_pop_def schedule_add_def f)
  then show ?thesis using h due s by (simp add: due_count_def filter_insort_triv)
qed

lemma advance_due_upd:
  "a i = Some t \<Longrightarrow> t \<le> c \<Longrightarrow> 0 < h \<Longrightarrow> advance_due c h (a(i \<mapsto> c + h)) = advance_due c h a"
  by (auto simp: advance_due_def fun_eq_iff)

lemma advance_due_none_due:
  assumes "\<And>j u. a j = Some u \<Longrightarrow> c < u"
  shows "advance_due c h a = a"
proof
  fix j
  show "advance_due c h a j = a j"
    using assms [of j] by (cases "a j") (auto simp: advance_due_def)
qed

lemma schedule_next_first:
  assumes "sched_inv s" and "schedule_next s = Some (t, i)" and "sched_abs s j = Some u"
  shows "t \<le> u"
proof -
  have "(t, i) \<le> (u, j)" using schedule_next_least [OF assms(1,2)] assms(3) by blast
  then show ?thesis by (auto simp: less_eq_prod_def)
qed

text \<open>What one step of the driver does to the schedule, as the map view sees it.\<close>

lemma user_tick_progress:
  assumes si: "sched_inv (userScheduler m)" and dm: "dom (sched_abs (userScheduler m)) = dom (users m)"
    and nx: "schedule_next (userScheduler m) = Some (t, i)" and due: "t \<le> clock m"
    and tk: "refresh_user_tick fetch m b = (m1, b1)"
  shows "\<exists>s. m1 = m\<lparr>userScheduler := s\<rparr> \<and> sched_inv s \<and> dom (sched_abs s) = dom (users m) \<and>
             sched_abs s = (sched_abs (userScheduler m))(i \<mapsto> clock m + refresh_interval m) \<and>
             refresh_due fetch m b = refresh_due fetch m1 b1"
proof -
  obtain s where m1: "m1 = m\<lparr>userScheduler := s\<rparr>" using user_tick_frameE [of fetch m b] tk by auto
  have "userScheduler (fst (refresh_user_tick fetch m b)) = s" using tk m1 by simp
  note sch = user_tick_due_sched [OF si dm nx due, of fetch b, unfolded this]
  moreover have "refresh_due fetch m b = refresh_due fetch m1 b1"
    using nx due tk by (subst refresh_due.simps) simp
  ultimately show ?thesis using m1 by blast
qed

text \<open>When nothing is due, the driver returns at once and the schedule is already advanced.\<close>

lemma driver_idle:
  assumes si: "sched_inv (userScheduler m)"
    and nd: "\<not> (\<exists>t i. schedule_next (userScheduler m) = Some (t, i) \<and> t \<le> clock m)"
  shows "refresh_due fetch m b = Some (m, b) \<and>
         advance_due (clock m) h (sched_abs (userScheduler m)) = sched_abs (userScheduler m)"
proof (cases "schedule_next (userScheduler m)")
  case None
  have "sched_abs (userScheduler m) = Map.empty" using None by (simp add: schedule_next_None)
  with None show ?thesis by (subst refresh_due.simps) (simp add: advance_due_def)
next
  case (Some e)
  obtain t i where nx: "schedule_next (userScheduler m) = Some (t, i)" using Some by (cases e) auto
  with nd have "clock m < t" by auto
  then have "advance_due (clock m) h (sched_abs (userScheduler m)) = sched_abs (userScheduler m)"
    using schedule_next_first [OF si nx] by (intro advance_due_none_due) force
  with nx \<open>clock m < t\<close> show ?thesis by (subst refresh_due.simps) simp
qed

text \<open>
  One step of the driver on a manager satisfying the invariant: the invariant holds
  after it, fewer entries are due, and the advanced schedule is unchanged.
\<close>

lemma driver_step:
  assumes inv: "manager_inv m" and nx: "schedule_next (userScheduler m) = Some (t, i)" and due: "t \<le> clock m"
    and tk: "refresh_user_tick fetch m b = (m1, b1)"
  shows "\<exists>s1. m1 = m\<lparr>userScheduler := s1\<rparr> \<and> manager_inv m1 \<and> due_count m1 < due_count m \<and>
           refresh_due fetch m b = refresh_due fetch m1 b1 \<and>
           advance_due (clock m) (refresh_interval m) (sched_abs s1) =
             advance_due (clock m) (refresh_interval m) (sched_abs (userScheduler m))"
proof -
  have si: "sched_inv (userScheduler m)" using manager_invD [OF inv] by simp
  obtain s1 where m1: "m1 = m\<lparr>userScheduler := s1\<rparr>"
    and ab: "sched_abs s1 = (sched_abs (userScheduler m))(i \<mapsto> clock m + refresh_interval m)"
    and r: "refresh_due fetch m b = refresh_due fetch m1 b1"
    using user_tick_progress [OF manager_invD(4,5) [OF inv] nx due tk] by blast
  have ai: "sched_abs (userScheduler m) i = Some t" using schedule_next_least [OF si nx] by blast
  have h: "0 < refresh_interval m" using manager_invD [OF inv] by (auto simp: backoff_inv_def)
  have "manager_inv m1" using manager_inv_user_tick [OF inv, of fetch b] tk by simp
  moreover have "due_count m1 < due_count m" using due_count_tick [OF inv nx due, of fetch b] tk by simp
  ultimately show ?thesis
    using m1 r ab advance_due_upd [where a = "sched_abs (userScheduler m)", OF ai due h] by auto
qed

text \<open>
  With a non-positive refresh interval the driver never returns once some user is due:
  the user it refreshes is scheduled at \<open>now + interval \<le> now\<close>, due again.
\<close>

lemma refresh_due_diverges:
  assumes "sched_inv (userScheduler m)" and "dom (sched_abs (userScheduler m)) = dom (users m)"
    and "refresh_interval m \<le> 0" and "sched_abs (userScheduler m) i = Some t" and "t \<le> clock m"
  shows "refresh_due fetch m b = None"
proof (rule ccontr)
  assume "refresh_due fetch m b \<noteq> None"
  then obtain r where r: "refresh_due fetch m b = Some r" by blast
  let ?L = "\<lambda>m. sched_inv (userScheduler m) \<and> dom (sched_abs (userScheduler m)) = dom (users m) \<and>
              refresh_interval m \<le> 0 \<and> (\<exists>i t. sched_abs (userScheduler m) i = Some t \<and> t \<le> clock m)"
  have "\<not> ?L m"
  proof (rule refresh_due.raw_induct [where P = "\<lambda>fetch m b r. \<not> ?L m", OF _ r])
    fix f fetch m b r
    assume IH: "\<And>fetch m b r. f fetch m b = Some r \<Longrightarrow> \<not> ?L m"
      and eq: "(case schedule_next (userScheduler m) of None \<Rightarrow> Some (m, b)
         | Some (t, x) \<Rightarrow> if t \<le> clock m then case refresh_user_tick fetch m b of (m', b') \<Rightarrow> f fetch m' b'
           else Some (m, b)) = Some r"
    show "\<not> ?L m"
    proof
      assume L: "?L m"
      then obtain i t where d: "sched_abs (userScheduler m) i = Some t" and due: "t \<le> clock m"
        and si: "sched_inv (userScheduler m)" and dm: "dom (sched_abs (userScheduler m)) = dom (users m)"
        and h: "refresh_interval m \<le> 0" by blast
      obtain t' i' where nx: "schedule_next (userScheduler m) = Some (t', i')"
        using d schedule_next_None [of "userScheduler m"] by (cases "schedule_next (userScheduler m)") auto
      have due': "t' \<le> clock m" using schedule_next_first [OF si nx d] due by simp
      obtain m' b' where tk: "refresh_user_tick fetch m b = (m', b')" by (cases "refresh_user_tick fetch m b")
      obtain s where m': "m' = m\<lparr>userScheduler := s\<rparr>" and sch: "sched_inv s" "dom (sched_abs s) = dom (users m)"
        and ab: "sched_abs s = (sched_abs (userScheduler m))(i' \<mapsto> clock m + refresh_interval m)"
        using user_tick_progress [OF si dm nx due' tk] by blast
      have "f fetch m' b' = Some r" using eq nx due' tk by simp
      moreover have "?L m'"
        using sch m' h ab by (intro conjI exI [of _ i'] exI [of _ "clock m + refresh_interval m"]) simp_all
      ultimately show False using IH by blast
    qed
  qed
  with assms show False by blast
qed

section \<open>Typing of the caches\<close>

lemma cache_wt_on_update_record: "cache_wt m \<Longrightarrow> cache_wt (on_update_record m r)"
  by (auto simp: cache_wt_def on_update_record_def on_update_user_def Let_def split: payload.splits)

end
