(* ===== verification/ManagerTest.thy ===== *)
theory ManagerTest
  imports Manager
begin

text \<open>
  The fixtures of \<open>src/internal/identity/manager/manager_test.go\<close>: the mock directory
  provider, the managers the two tests build, the records the first test ingests, the
  provider outcomes of the backoff test, and the three refreshes it runs. Go's
  \<open>time.Hour\<close> is \<open>3600000000000\<close> nanoseconds.
\<close>

record mock_provider =
  mock_user :: "string \<Rightarrow> string \<Rightarrow> string + payload"
  mock_userGroups :: "nat \<Rightarrow> user_groups_result"

text \<open>\<open>mockProvider.UserGroups\<close>: the \<open>n\<close>-th call delegates to the mock's function.\<close>

definition provider_UserGroups :: "mock_provider \<Rightarrow> nat \<Rightarrow> user_groups_result" where
  "provider_UserGroups p n = mock_userGroups p n"

text \<open>\<open>mockProvider.User\<close>: delegates to the mock's function (the access token is passed through).\<close>

definition provider_User :: "mock_provider \<Rightarrow> string \<Rightarrow> string \<Rightarrow> string + payload" where
  "provider_User p uid tok = mock_user p uid tok"

definition hour :: int where
  "hour = 3600000000000"

text \<open>\<open>New(WithDirectoryProvider(..), WithGroupRefreshInterval(time.Hour), WithNow(..))\<close> with \<open>RandomizationFactor = 0\<close>.\<close>

definition test_manager :: "int \<Rightarrow> manager" where
  "test_manager now =
     (let m = new_manager hour now
      in m\<lparr>directory_backoff := (directory_backoff m)\<lparr>randomization_factor := 0\<rparr>\<rparr>)"

definition test_update_records :: "dbrecord list" where
  "test_update_records =
     [mkRecord (PGroup ''group1'' ''group 1'' ''group1@example.com''),
      mkRecord (PDirUser ''user1'' ''user 1'' ''user1@example.com'' [''group1s'']),
      mkRecord (PSession ''session1'' ''user1''),
      mkRecord (PUser ''user1'' ''user 1'' ''user1@example.com'')]"

text \<open>The backoff test's \<open>userGroups\<close>: the first two calls fail, later ones succeed with nothing.\<close>

definition backoff_userGroups :: "nat \<Rightarrow> user_groups_result" where
  "backoff_userGroups cnt =
     (if cnt = 1 then Inl ''error 1'' else if cnt = 2 then Inl ''error 2'' else Inr ([], []))"

definition backoff_provider :: mock_provider where
  "backoff_provider = \<lparr>mock_user = (\<lambda>_ _. Inl ''nil''), mock_userGroups = backoff_userGroups\<rparr>"

text \<open>\<open>dur1\<close>, \<open>dur2\<close>, \<open>dur3\<close>: three calls of \<open>refreshDirectoryUserGroups\<close>.\<close>

definition backoff_test_durations :: "manager \<Rightarrow> backend \<Rightarrow> int \<times> int \<times> int" where
  "backoff_test_durations m b =
     (let (d1, m1, b1) = refreshDirectoryUserGroups (provider_UserGroups backoff_provider 1) 0 m b;
          (d2, m2, b2) = refreshDirectoryUserGroups (provider_UserGroups backoff_provider 2) 0 m1 b1;
          (d3, m3, b3) = refreshDirectoryUserGroups (provider_UserGroups backoff_provider 3) 0 m2 b2
      in (d1, d2, d3))"

text \<open>
  The assertions of \<open>TestManager_onUpdateRecords\<close>: the group, the directory user and
  the session are cached, and, the platform user being cached, the scheduler's \<open>Next\<close>
  is \<open>(now + 1h, "user1")\<close>. An empty scheduler's \<open>Next\<close> is Go's zero time and
  empty id, which fails the assertion as \<open>None\<close> does.
\<close>

definition onUpdateRecords_assertions :: "int \<Rightarrow> manager \<Rightarrow> bool" where
  "onUpdateRecords_assertions now mgr \<longleftrightarrow>
     directoryGroups mgr ''group1'' \<noteq> None \<and> directoryUsers mgr ''user1'' \<noteq> None \<and>
     sessions mgr (''user1'', ''session1'') \<noteq> None \<and>
     users mgr ''user1'' \<noteq> None \<and> schedule_next (userScheduler mgr) = Some (now + hour, ''user1'')"

text \<open>\<open>TestManager_onUpdateRecords\<close>: the test passes at the clock value \<open>now\<close>.\<close>

definition TestManager_onUpdateRecords :: "int \<Rightarrow> bool" where
  "TestManager_onUpdateRecords now =
     onUpdateRecords_assertions now (onUpdateRecords (test_manager now) test_update_records)"

text \<open>The assertions of the backoff subtest: \<open>dur2 > dur1\<close>, \<open>dur3 > dur2\<close>, \<open>dur3 = time.Hour\<close>.\<close>

definition refresh_assertions :: "int \<Rightarrow> int \<Rightarrow> int \<Rightarrow> bool" where
  "refresh_assertions dur1 dur2 dur3 \<longleftrightarrow> dur2 > dur1 \<and> dur3 > dur2 \<and> dur3 = hour"

text \<open>
  \<open>TestManager_refreshDirectoryUserGroups\<close>: the backoff subtest passes. The subtest's
  manager has no \<open>WithNow\<close>, so its clock is whatever \<open>now\<close> is; its store is
  whatever \<open>b\<close> is (the provider returns no groups or users, so nothing is written).
\<close>

definition TestManager_refreshDirectoryUserGroups :: "int \<Rightarrow> backend \<Rightarrow> bool" where
  "TestManager_refreshDirectoryUserGroups now b =
     (let (dur1, dur2, dur3) = backoff_test_durations (test_manager now) b
      in refresh_assertions dur1 dur2 dur3)"

lemma manager_inv_test_manager: "manager_inv (test_manager now)"
  by (simp add: manager_inv_def test_manager_def new_manager_def new_exponential_backoff_def backoff_inv_def
      hour_def sched_inv_def sched_abs_def)

section \<open>The tests pass on the model\<close>

text \<open>
  Both tests of \<open>manager_test.go\<close> evaluated on the model: the assertions of
  \<open>TestManager_onUpdateRecords\<close> and of the backoff subtest of
  \<open>TestManager_refreshDirectoryUserGroups\<close> hold.
\<close>

lemma test_onUpdateRecords: "TestManager_onUpdateRecords now"
  unfolding TestManager_onUpdateRecords_def onUpdateRecords_assertions_def
  by (simp add: onUpdateRecords_def test_update_records_def test_manager_def new_manager_def
      on_update_record_def on_update_user_def mkRecord_def schedule_defs)

lemma test_refresh_backoff: "TestManager_refreshDirectoryUserGroups now b"
  unfolding TestManager_refreshDirectoryUserGroups_def refresh_assertions_def
  by (simp add: backoff_test_durations_def provider_UserGroups_def backoff_provider_def backoff_userGroups_def
      refreshDirectoryUserGroups_def next_backoff_def test_manager_def new_manager_def
      new_exponential_backoff_def increment_interval_def hour_def)

end
