(* ===== verification/CacheSync.thy ===== *)
theory CacheSync
  imports StreamRuns ManagerTest
begin

text \<open>
  The identity manager's caches against the record store (spec sections 3 and 5: the
  caches are reconciled with the store by ingesting records in the order the stream
  delivers them). \<open>caches_track m b\<close> says the group, directory-user and platform-user
  caches hold exactly the live message of the store's latest record of that type and id,
  and every live session of the store is cached under its user and session ids. Each
  \<open>Put\<close> of a well-typed record, followed by ingesting that record, keeps the relation.
  Ingestion ignores the version the store stamps, so what a live stream delivers is
  ingested as the written records themselves.
\<close>

definition caches_track :: "manager \<Rightarrow> backend \<Rightarrow> bool" where
  "caches_track m b \<longleftrightarrow>
     (\<forall>i. directoryGroups m i = live_payload ''type.googleapis.com/directory.Group'' i b) \<and>
     (\<forall>i. directoryUsers m i = live_payload ''type.googleapis.com/directory.User'' i b) \<and>
     (\<forall>i. users m i = live_payload ''type.googleapis.com/user.User'' i b) \<and>
     (\<forall>u s. live_payload ''type.googleapis.com/session.Session'' s b = Some (PSession s u) \<longrightarrow>
            sessions m (u, s) = Some (PSession s u))"

section \<open>Ingestion keeps the caches on the store\<close>

lemma on_update_record_version [simp]: "on_update_record m (r\<lparr>rec_version := v\<rparr>) = on_update_record m r"
  by (simp add: on_update_record_def Let_def)

lemma onUpdateRecords_stamp: "onUpdateRecords m (stamp v rs) = onUpdateRecords m rs"
  unfolding onUpdateRecords_def by (induction rs arbitrary: m v) simp_all

lemma caches_track_backoff [simp]:
  "caches_track (m\<lparr>directory_backoff := bo\<rparr>) b = caches_track m b"
  by (simp add: caches_track_def)

lemma caches_track_put:
  assumes tr: "caches_track m b" and wt: "rec_wt r" and p: "put r b = Inr (v, b')"
  shows "caches_track (on_update_record m r) b'"
  using tr wt live_payload_put [OF p]
  by (cases "rec_data r")
     (auto simp: caches_track_def rec_wt_def known_type_urls_def on_update_record_def on_update_user_def Let_def)

lemma caches_track_put_all:
  "caches_track m b \<Longrightarrow> \<not> is_closed b \<Longrightarrow> list_all rec_wt rs \<Longrightarrow>
   caches_track (onUpdateRecords m rs) (put_all rs b)"
proof (induction rs arbitrary: m b)
  case Nil
  then show ?case by (simp add: onUpdateRecords_def)
next
  case (Cons r rs)
  obtain v b' where p: "put r b = Inr (v, b')" using Cons.prems(2) by (simp add: put_def Let_def)
  have "caches_track (on_update_record m r) b'" using caches_track_put [OF Cons.prems(1) _ p] Cons.prems(3) by simp
  moreover have "\<not> is_closed b'" using put_is_closed [OF p] Cons.prems(2) by simp
  ultimately show ?case using Cons.IH [of _ b'] Cons.prems(3) p by (simp add: onUpdateRecords_def)
qed

end
