(* ===== verification/Spec2Isabelle.thy ===== *)
theory Spec2Isabelle
  imports CacheSync
begin

text \<open>
  \<^bold>\<open>A verification development of pomerium's record synchronisation core.\<close>

  \<^bold>\<open>The program.\<close> The repository's code under \<open>src/\<close> is
  \<open>src/pkg/storage/inmemory/stream.go\<close>, the two record streams of the in-memory store,
  and \<open>src/internal/identity/manager/manager_test.go\<close>, the tests of the identity
  manager. The code they call (the store \<open>inmemory.Backend\<close>, the notifier
  \<open>signal.Signal\<close>, the stream framework \<open>storage.NewRecordStream\<close>, the
  exponential backoff, the scheduler and the identity manager) is not under \<open>src/\<close>;
  it is modelled from the specification (\<open>spec.md\<close>), section by section, and the map
  of the manifest marks it so. The parts interact as the spec's data flow says: the store's
  \<open>Put\<close> stamps a version and broadcasts on the notifier; a tailing stream's generator
  polls \<open>getSince\<close>, and when blocked waits in a \<open>select\<close> for the notifier or the
  end of its context; the identity manager writes the directory's groups and users to
  the store and ingests the records a stream delivers into its caches.

  \<^bold>\<open>Theories.\<close>
  \<^item> \<open>Prelude\<close>: the version type (\<open>64 word\<close>, Go's \<open>uint64\<close>), strict ascending
    order of a list by a key, and their shared lemmas.
  \<^item> \<open>Records\<close>: \<open>databroker.Record\<close> as the record \<open>dbrecord\<close>, the identity messages
    as the datatype \<open>payload\<close>, their type URLs and ids, the test helper
    \<open>mkRecord\<close>, and well-typedness of a record (\<open>rec_wt\<close>: its type and id are its
    message's type URL and \<open>GetId()\<close>).
  \<^item> \<open>Signal\<close>: \<open>Bind\<close>, \<open>Unbind\<close> and the non-blocking \<open>Broadcast\<close> over capacity-one
    channels, with the channel buffers kept apart from the listener list.
  \<^item> \<open>Backend\<close>: the store's state (counter, collections per type, notifier, closed
    flag), \<open>Put\<close> (\<open>put\<close>, an error value when closed), \<open>Close\<close>
    (\<open>close_backend\<close>), \<open>getSince\<close>
    (\<open>get_since\<close>), the \<open>ListAll\<close> view and point reads (\<open>store_get\<close>,
    \<open>live_payload\<close>); the invariant \<open>backend_inv\<close> and that \<open>Put\<close> preserves it;
    \<open>get_since\<close> exactly, ascending, after a \<open>Put\<close>; the point read after a \<open>Put\<close>.
  \<^item> \<open>RecordStream\<close>: \<open>NewRecordStream\<close>, \<open>Next\<close> (\<open>stream_next\<close>; generators tried
    in order, a done generator dropped, an error latched) and \<open>Close\<close> (finaliser once).
  \<^item> \<open>InMemoryStream\<close>: \<open>stream.go\<close> line by line. \<open>newSyncLatestRecordStream\<close> is two
    generators over a buffer (\<open>sync_latest_load\<close>, \<open>sync_latest_pop\<close>);
    \<open>newSyncRecordStream\<close> binds a channel and runs one generator (\<open>sync_gen\<close>) whose
    captured variables \<open>ready\<close>, \<open>recordVersion\<close>, \<open>changed\<close> are the record
    \<open>sync_state\<close>; one pass of its \<open>for\<close> loop up to the \<open>select\<close> is \<open>sync_poll\<close>,
    the \<open>select\<close> is \<open>sync_select\<close> (one equation per case), the finaliser is
    \<open>sync_close\<close>. The cursor invariant \<open>cursor_inv\<close> relates what was returned to the
    store.
  \<^item> \<open>StreamSystem\<close>: the concurrency of spec section 5 as an explicit interleaving.
    A state \<open>sys\<close> holds the store, one tailing stream, whether its consumer is suspended
    in the \<open>select\<close>, whether the request is cancelled, and what was delivered; an
    \<open>event\<close> is one atomic action of the writer (\<open>EPut\<close>), the consumer
    (\<open>ENext\<close>), the two cases of the \<open>select\<close> (\<open>EWake\<close>, \<open>ECtxDone\<close>, each
    enabled only when its channel is ready, so both orders of a race are runs), the
    canceller, the stream's closer and the store's closer (\<open>ECloseStore\<close>); the
    generator's context is done once the request is cancelled or the stream or the store
    is closed. \<open>sys_inv\<close> is preserved by every event.
  \<^item> \<open>StreamRuns\<close>: runs of events; the reachable states as the inductive
    \<open>sys_reach\<close>, whose invariant is proved by rule induction; what a run of writes
    followed by non-blocking pulls delivers; when a stream has ended for good; a client
    opening and closing streams in sequence (\<open>open_close\<close>); the scenario of spec
    section 8 evaluated on the model.
  \<^item> \<open>Backoff\<close>, \<open>Scheduler\<close>, \<open>Manager\<close>: the exponential backoff (growth, cap,
    reset), the scheduler as an ordered list refining a map from id to due time, and the
    manager: \<open>New\<close>, \<open>onUpdateRecords\<close> (dispatch by type URL, tombstones, user
    scheduling), \<open>refreshDirectoryUserGroups\<close> (backoff on error, reset and writes to the
    store on success), the directory-refresh driver \<open>refresh_loop\<close>, one step of the
    per-user refresh \<open>refresh_user_tick\<close> (which writes the provider's result to the
    store, the caches having ingestion as their only writer), the per-user driver
    \<open>refresh_due\<close>, \<open>manager_inv\<close> and the typing of the caches \<open>cache_wt\<close>.
  \<^item> \<open>ManagerTest\<close>: \<open>manager_test.go\<close>: the mock provider, the managers the tests
    build, the records ingested, the provider outcomes, the three refreshes, and the two
    tests as bool-valued definitions (\<open>TestManager_onUpdateRecords\<close>,
    \<open>TestManager_refreshDirectoryUserGroups\<close>) over their assertions, and lemmas that
    the model passes both.
  \<^item> \<open>CacheSync\<close>: the manager as the store's writer and a stream's consumer; the caches
    against the store (\<open>caches_track\<close>: each cache holds the live message of the
    store's latest record of its type and id), kept by every \<open>Put\<close> of a well-typed
    record followed by its ingestion.
  \<^item> This theory: the properties, grouped by part, each with a witness at a concrete
    input where it has hypotheses.

  \<^bold>\<open>What the properties show.\<close> The tailing stream delivers in strictly increasing
  version order under every interleaving, misses nothing newer than its cursor when it
  reports false, never loses a wake-up, resumes exactly after a run of writes, is
  released deterministically by cancellation, closing or closing the store, never
  suspends a non-blocking pull, and leaks no subscription; a poll returns exactly the
  records newer than its cursor and a \<open>Put\<close> is what the next poll returns; the
  snapshot stream returns the store as of its first pull. The manager dispatches every
  record to the right cache and skips the rest, its scheduler implements the map of due
  times and returns the earliest entry, each due user is refreshed and rescheduled one
  interval later, the per-user driver returns whenever the interval is positive, its
  backoff grows, caps at the refresh interval and resets; the caches stay well typed
  whatever is ingested; after a successful refresh whose writes a live stream delivers to
  ingestion, the caches hold the store's live records. The gaps of the spec that modelling
  exposed are theorems too: a non-blocking pull ends a live stream, the version counter
  wraps, a cursor ahead of the store skips writes, a zero refresh interval makes the
  per-user driver diverge, and a session that changes user leaves a stale cache entry
  that outlives the session's deletion. Evaluations of the model on fixed inputs (the
  spec's scenario, the two tests of \<open>manager_test.go\<close>) are lemmas of the component
  theories, not properties.

  \<^bold>\<open>Bounds.\<close> Versions are \<open>64 word\<close>: \<open>+\<close> wraps. Runs of the system carry the
  hypothesis \<open>unat (last_version b) + length es < 2 ^ 64\<close>, enough room for every
  \<open>Put\<close> of the run; what happens without room is the claim on wrap-around.
  Durations are \<open>int\<close> nanoseconds, bounded by the refresh interval. No definition uses
  fuel: every loop of the code is structural recursion over a list (generators, events,
  records, provider outcomes) or the Go \<open>for\<close> loop of the generator, which is one
  event per iteration (\<open>sync_poll\<close>, then a \<open>select\<close> case), so its non-termination
  is a run that never takes the enabling event, as in Go. The per-user driver, which
  need not return, is \<open>partial_function (option)\<close> \<open>refresh_due\<close>: it is proved to
  return \<open>Some\<close> under the manager invariant (positive interval), by induction on the
  number of due entries (\<open>due_count\<close>), and to be \<open>None\<close> with a zero interval.

  \<^bold>\<open>Not modelled.\<close> Map iteration order of \<open>backend.lookup\<close> is Go's random order;
  the model iterates the store's types in insertion order, and the snapshot claims state
  the result as that concatenation. Deep copies (\<open>dup\<close>, \<open>proto.Clone\<close>) are identities,
  since records are values. Operations of the store the spec does not name (per-type
  \<open>List\<close>, \<open>Delete\<close>), the content of a per-user refresh beyond writing the provider's
  \<open>User\<close> result to the store (spec section 9 leaves it open), a session scheduler and
  session refresh (the spec defines none), the directory provider itself, the gRPC
  transport, policy evaluation, persistence, configuration and logging are outside what
  the code under \<open>src/\<close> exercises, or out of the spec's scope.
\<close>

section \<open>The tailing stream in its environment\<close>

text \<open>
  C1. Under every interleaving of writes, \<open>Next\<close> calls, wake-ups, cancellation
  and closing, a tailing stream opened at version \<open>v\<close> on a well-formed store
  delivers records in strictly increasing version order, each newer than \<open>v\<close>.
\<close>

theorem live_stream_in_order:
  assumes "backend_inv b" and "v \<le> last_version b"
    and "unat (last_version b) + length es < 2 ^ 64"
    and "sys_run (sys_init b v) es = Some s'"
  shows "ascending rec_version (delivered s') \<and> (\<forall>x\<in>set (delivered s'). v < rec_version x)"
proof -
  have "sys_inv s'" using sys_run_init_inv [OF assms] .
  moreover have "start_version s' = v"
    using sys_run_start [OF assms(4)] by (simp add: sys_init_fields)
  ultimately show ?thesis using sys_inv_delivered by blast
qed

theorem live_stream_in_order_witness:
  "ascending rec_version (delivered (the (sys_run (sys_init new_backend 0) [EPut (mkRecord (PUser ''user1'' ''user 1'' ''user1@example.com'')), ENext True, ENext True, EPut (mkRecord (PUser ''user1'' ''user 1'' ''user1@example.com'')), EWake, ENext False]))) \<and>
   list_all (\<lambda>x. 0 < rec_version x) (delivered (the (sys_run (sys_init new_backend 0) [EPut (mkRecord (PUser ''user1'' ''user 1'' ''user1@example.com'')), ENext True, ENext True, EPut (mkRecord (PUser ''user1'' ''user 1'' ''user1@example.com'')), EWake, ENext False])))"
proof -
  let ?es = "[EPut (mkRecord (PUser ''user1'' ''user 1'' ''user1@example.com'')), ENext True, ENext True, EPut (mkRecord (PUser ''user1'' ''user 1'' ''user1@example.com'')), EWake, ENext False]"
  have r: "sys_run (sys_init new_backend 0) ?es = Some (the (sys_run (sys_init new_backend 0) ?es))"
    by (simp add: sys_eval)
  have "ascending rec_version (delivered (the (sys_run (sys_init new_backend 0) ?es))) \<and>
     (\<forall>x\<in>set (delivered (the (sys_run (sys_init new_backend 0) ?es))). 0 < rec_version x)"
    by (rule live_stream_in_order [OF backend_inv_new_backend _ _ r]) (simp_all add: new_backend_def)
  then show ?thesis unfolding list_all_iff .
qed

text \<open>
  C2. When a non-blocking \<open>Next\<close> on the tailing stream returns false without
  an error, the consumer has received every record of the store newer than the starting
  version.
\<close>

theorem live_stream_complete:
  assumes inv: "sys_inv s" and gens: "generators (sys_stream s) \<noteq> []"
    and st: "sys_step s (ENext False) = Some s'"
    and out: "last_outcome s' = Some NextFalse" and err: "stream_err (sys_stream s') = None"
  shows "{x \<in> set (all_records (sys_backend s')). start_version s' < rec_version x} \<subseteq> set (delivered s')"
proof -
  let ?b = "sys_backend s" and ?T = "sys_stream s"
  let ?ls = "gen_state ?T"
  have idle: "sys_consumer s \<noteq> Waiting"
    using st sys_step_next_Waiting by (metis option.distinct(1))
  obtain oc T' where sn: "stream_next (sys_cancelled s) False ?b ?T = (oc, T')"
    by (cases "stream_next (sys_cancelled s) False ?b ?T") auto
  with st idle have s': "s' = observe oc (s\<lparr>sys_stream := T'\<rparr>)" by simp
  with out have oc: "oc = NextFalse" by (simp add: observe_def split: next_outcome.splits)
  from s' err have "stream_err T' = None" by simp
  with sn have fn: "finish_next (run_generators (generators ?T) ?b False ?ls) ?T = (oc, T')"
    using stream_next_no_err by blast
  have g1: "generators ?T = [sync_gen]" using inv gens by (simp add: sys_inv_def)
  obtain res ls' where g: "sync_gen ?b False ?ls = (res, ls')" by (cases "sync_gen ?b False ?ls") auto
  have "\<forall>r. res \<noteq> GRecord r"
  proof
    fix r show "res \<noteq> GRecord r"
    proof
      assume "res = GRecord r"
      with fn g1 g oc show False by (simp add: run_generators_sync_gen)
    qed
  qed
  then have other: "ready ?ls = [] \<and> get_since (record_version ?ls) ?b = []"
    using sync_gen_other [OF g] by blast
  have c: "cursor_inv (start_version s) ?b (delivered s) ?ls" using inv by (simp add: sys_inv_def)
  have "{x \<in> set (all_records ?b). start_version s < rec_version x} \<subseteq> set (delivered s)"
    using cursor_complete [OF c] other by blast
  with s' oc show ?thesis by (simp add: observe_delivered)
qed

theorem live_stream_complete_witness:
  "let s = the (sys_run (sys_init new_backend 0) [EPut (mkRecord (PUser ''user1'' ''user 1'' ''user1@example.com'')), ENext True]);
       s' = the (sys_step s (ENext False))
   in {x \<in> set (all_records (sys_backend s')). start_version s' < rec_version x} \<subseteq> set (delivered s') \<and>
      last_outcome s' = Some NextFalse"
proof -
  let ?es = "[EPut (mkRecord (PUser ''user1'' ''user 1'' ''user1@example.com'')), ENext True]"
  define s where "s = the (sys_run (sys_init new_backend 0) ?es)"
  define s' where "s' = the (sys_step s (ENext False))"
  have r: "sys_run (sys_init new_backend 0) ?es = Some s"
    unfolding s_def by (simp add: sys_eval)
  have inv: "sys_inv s"
    by (rule sys_run_init_inv [OF backend_inv_new_backend _ _ r]) (simp_all add: new_backend_def)
  have g: "generators (sys_stream s) \<noteq> []" and st: "sys_step s (ENext False) = Some s'"
    and o: "last_outcome s' = Some NextFalse" and e: "stream_err (sys_stream s') = None"
    unfolding s'_def s_def by (simp_all add: sys_eval)
  show ?thesis
    using live_stream_complete [OF inv g st o e] o by (simp add: s_def s'_def Let_def)
qed

text \<open>
  C3. Live resumption (spec section 8): a tailing stream opened at the store's current
  version, followed by \<open>N\<close> writes of distinct keys, yields exactly those
  \<open>N\<close> records with the versions the store stamped on them, in order, and then
  reports false, although the stream was constructed before any of them existed.
\<close>

theorem live_stream_resumption:
  assumes inv: "backend_inv b" and op: "\<not> is_closed b" and d: "distinct (map rec_key rs)"
    and room: "unat (last_version b) + length rs < 2 ^ 64"
  shows "\<exists>s'. sys_run (sys_init b (last_version b)) (map EPut rs @ replicate (Suc (length rs)) (ENext False)) = Some s' \<and>
           delivered s' = stamp (last_version b) rs \<and> last_outcome s' = Some NextFalse"
  using puts_then_drain [OF assms] .

theorem live_stream_resumption_witness:
  "let b = snd (projr (put (mkRecord (PGroup ''group1'' ''group 1'' ''group1@example.com'')) new_backend));
       rs = [mkRecord (PUser ''user1'' ''user 1'' ''user1@example.com''), mkRecord (PSession ''session1'' ''user1'')]
   in \<exists>s'. sys_run (sys_init b 1) (map EPut rs @ replicate 3 (ENext False)) = Some s' \<and>
          map rec_version (delivered s') = [2, 3] \<and> map rec_id (delivered s') = [''user1'', ''session1''] \<and>
          last_outcome s' = Some NextFalse"
proof -
  define b where "b = snd (projr (put (mkRecord (PGroup ''group1'' ''group 1'' ''group1@example.com'')) new_backend))"
  define rs where "rs = [mkRecord (PUser ''user1'' ''user 1'' ''user1@example.com''), mkRecord (PSession ''session1'' ''user1'')]"
  have inv: "backend_inv b" and op: "\<not> is_closed b" and lv: "last_version b = 1"
    unfolding b_def by (simp_all add: sys_eval backend_inv_def coll_inv_def signal_inv_def)
  have d: "distinct (map rec_key rs)" and room: "unat (last_version b) + length rs < 2 ^ 64"
    unfolding rs_def lv by (simp_all add: mkRecord_def rec_key_def)
  have n: "Suc (length rs) = 3" by (simp add: rs_def)
  obtain s' where r: "sys_run (sys_init b (last_version b)) (map EPut rs @ replicate (Suc (length rs)) (ENext False)) = Some s'"
    and dl: "delivered s' = stamp (last_version b) rs" and o: "last_outcome s' = Some NextFalse"
    using live_stream_resumption [OF inv op d room] by blast
  have "map rec_version (delivered s') = [2, 3] \<and> map rec_id (delivered s') = [''user1'', ''session1'']"
    unfolding dl lv by (simp add: rs_def mkRecord_def)
  with r o show ?thesis unfolding n lv Let_def b_def [symmetric] rs_def [symmetric] by (intro exI [of _ s']) simp
qed

text \<open>
  C4. No lost wake-up: a \<open>Put\<close> that succeeds while the consumer is suspended
  in the generator's \<open>select\<close> on an open stream enables the wake-up case, and
  that case returns a record to the consumer.
\<close>

theorem live_stream_wakes:
  assumes inv: "sys_inv s" and w: "sys_consumer s = Waiting" and open_st: "\<not> stream_closed (sys_stream s)"
    and room: "has_room (sys_backend s)" and open_b: "\<not> is_closed (sys_backend s)"
    and st: "sys_step s (EPut r) = Some s1"
  shows "\<exists>s2 x. sys_step s1 EWake = Some s2 \<and> last_outcome s2 = Some (NextRecord x) \<and>
           sys_consumer s2 = Idle"
proof -
  let ?b = "sys_backend s" and ?T = "sys_stream s"
  let ?ls = "gen_state ?T"
  obtain v b1 where p: "put r ?b = Inr (v, b1)"
    using open_b by (simp add: put_def Let_def)
  with st have s1: "s1 = s\<lparr>sys_backend := b1\<rparr>" by simp
  have inv1: "sys_inv s1" using sys_inv_put [OF inv room st] .
  have bi: "backend_inv ?b" and c: "cursor_inv (start_version s) ?b (delivered s) ?ls"
    using inv by (simp_all add: sys_inv_def)
  have "get_since (record_version ?ls) b1 \<noteq> []"
    using put_get_since_nonempty [OF bi room p cursor_inv_last [OF c]] .
  then obtain x xs where gs: "get_since (record_version ?ls) b1 = x # xs" by (cases "get_since (record_version ?ls) b1") auto
  have wi: "wait_inv b1 ?T" using inv1 w s1 by (simp add: sys_inv_def)
  then have full: "chan_full (on_change b1) (changed ?ls)" and r: "ready ?ls = []"
    and gens: "generators ?T = [sync_gen]"
    using open_st gs by (simp_all add: wait_inv_def)
  let ?b2 = "b1\<lparr>on_change := (on_change b1)\<lparr>chan_full := (chan_full (on_change b1))(changed ?ls := False)\<rparr>\<rparr>"
  let ?ls2 = "?ls\<lparr>ready := xs, record_version := rec_version (last (x # xs))\<rparr>"
  have poll: "sync_poll ?b2 True ?ls = (GRecord x, ?ls2)"
    using gs by (simp add: sync_poll_def)
  have sel: "sync_select SelChanged (sys_cancelled s1) (sys_backend s1) (gen_state (sys_stream s1)) =
      Some (GRecord x, ?ls2, ?b2)"
    using full poll s1 by (simp add: Let_def)
  let ?s2 = "observe (NextRecord x) (s1\<lparr>sys_backend := ?b2,
      sys_stream := ?T\<lparr>generators := [sync_gen], gen_state := ?ls2, current := Some x\<rparr>\<rparr>)"
  have "sys_step s1 EWake = Some ?s2"
    using sel w s1 gens by (simp add: sys_resume_def)
  moreover have "last_outcome ?s2 = Some (NextRecord x) \<and> sys_consumer ?s2 = Idle"
    by (simp add: observe_def)
  ultimately show ?thesis by blast
qed

theorem live_stream_wakes_witness:
  "let s = the (sys_run (sys_init new_backend 0) [EPut (mkRecord (PUser ''user1'' ''user 1'' ''user1@example.com'')), ENext True, ENext True]);
       s1 = the (sys_step s (EPut (mkRecord (PUser ''user1'' ''user 1'' ''user1@example.com''))))
   in \<exists>s2 x. sys_step s1 EWake = Some s2 \<and> last_outcome s2 = Some (NextRecord x) \<and> sys_consumer s2 = Idle"
proof -
  let ?es = "[EPut (mkRecord (PUser ''user1'' ''user 1'' ''user1@example.com'')), ENext True, ENext True]"
  define s where "s = the (sys_run (sys_init new_backend 0) ?es)"
  define s1 where "s1 = the (sys_step s (EPut (mkRecord (PUser ''user1'' ''user 1'' ''user1@example.com''))))"
  have r: "sys_run (sys_init new_backend 0) ?es = Some s"
    unfolding s_def by (simp add: sys_eval)
  have inv: "sys_inv s"
    by (rule sys_run_init_inv [OF backend_inv_new_backend _ _ r]) (simp_all add: new_backend_def)
  have w: "sys_consumer s = Waiting" and c: "\<not> stream_closed (sys_stream s)"
    and h: "has_room (sys_backend s)" and b: "\<not> is_closed (sys_backend s)"
    and st: "sys_step s (EPut (mkRecord (PUser ''user1'' ''user 1'' ''user1@example.com''))) = Some s1"
    unfolding s1_def s_def by (simp_all add: sys_eval has_room_def)
  show ?thesis
    using live_stream_wakes [OF inv w c h b st] by (simp add: s_def s1_def Let_def)
qed

text \<open>
  C10. The stream system's invariant (well-formed store, cursor invariant of what was delivered, the channel bound exactly while the stream is open, a token pending whenever a suspended consumer has something to read) holds in every reachable state.
\<close>

theorem reachable_sys_inv:
  "sys_reach s \<Longrightarrow> sys_inv s"
  by (induction rule: sys_reach.induct) (auto intro: sys_init_inv sys_inv_step)

theorem reachable_sys_inv_witness:
  "sys_inv (the (sys_step (sys_init new_backend 0) (ENext True)))"
proof -
  have r0: "sys_reach (sys_init new_backend 0)"
    by (rule reach_init [OF backend_inv_new_backend]) (simp add: new_backend_def)
  have "sys_reach (the (sys_step (sys_init new_backend 0) (ENext True)))"
    by (rule reach_step [OF r0, where e = "ENext True"]) (simp_all add: sys_eval has_room_def)
  then show ?thesis by (rule reachable_sys_inv)
qed

text \<open>
  C14. Cancellation and closing (spec sections 4.3 and 5): a \<open>Next\<close> suspended
  in the generator's \<open>select\<close> whose context is done, because the request was
  cancelled, the stream was closed or the store was closed, can always resume; it returns false with the
  cancellation error, which is distinct from plain exhaustion (no error).
\<close>

theorem blocked_next_ctx_done:
  assumes "sys_consumer s = Waiting" and "sys_cancelled s \<or> stream_closed (sys_stream s) \<or> is_closed (sys_backend s)"
  shows "\<exists>s'. sys_step s ECtxDone = Some s' \<and> last_outcome s' = Some NextFalse \<and>
              stream_err (sys_stream s') = Some ErrCanceled \<and> sys_consumer s' = Idle"
  using assms by (simp add: sys_resume_def observe_def)

theorem blocked_next_ctx_done_witness:
  "let s = the (sys_run (sys_init new_backend 0) [ENext True, EClose])
   in \<exists>s'. sys_step s ECtxDone = Some s' \<and> last_outcome s' = Some NextFalse \<and>
              stream_err (sys_stream s') = Some ErrCanceled \<and> sys_consumer s' = Idle"
proof -
  define s where "s = the (sys_run (sys_init new_backend 0) [ENext True, EClose])"
  have "sys_consumer s = Waiting" and "sys_cancelled s \<or> stream_closed (sys_stream s) \<or> is_closed (sys_backend s)"
    unfolding s_def by (simp_all add: sys_eval)
  from blocked_next_ctx_done [OF this]
  have "\<exists>s'. sys_step s ECtxDone = Some s' \<and> last_outcome s' = Some NextFalse \<and>
              stream_err (sys_stream s') = Some ErrCanceled \<and> sys_consumer s' = Idle" .
  then show ?thesis unfolding Let_def s_def [symmetric] .
qed

text \<open>
  C15. A non-blocking \<open>Next\<close> of the tailing stream always returns (spec section 4.3, pull contract): from every state satisfying the invariant with the consumer not suspended, it completes with a record or false and never suspends.
\<close>

theorem nonblocking_next_returns:
  assumes inv: "sys_inv s" and idle: "sys_consumer s \<noteq> Waiting"
  shows "\<exists>s'. sys_step s (ENext False) = Some s' \<and> sys_consumer s' = Idle \<and> last_outcome s' \<noteq> Some NextBlocked"
proof -
  let ?T = "sys_stream s"
  obtain out T' where sn: "stream_next (sys_cancelled s) False (sys_backend s) ?T = (out, T')"
    by (cases "stream_next (sys_cancelled s) False (sys_backend s) ?T") auto
  have g: "generators ?T \<in> {[], [sync_gen]}" using inv by (simp add: sys_inv_def)
  have "out \<noteq> NextBlocked"
  proof
    assume ob: "out = NextBlocked"
    obtain res gs ls' where rg: "run_generators (generators ?T) (sys_backend s) False (gen_state ?T) = (res, gs, ls')"
      by (cases "run_generators (generators ?T) (sys_backend s) False (gen_state ?T)") auto
    with sn ob have "res = GBlock"
      by (cases res) (auto simp: stream_next_def split: if_splits)
    with rg run_generators_nonblocking [OF g, of "sys_backend s" "gen_state ?T"] show False by simp
  qed
  with sn idle show ?thesis by (cases out) (simp_all add: observe_def)
qed

theorem nonblocking_next_returns_witness:
  "\<exists>s'. sys_step (sys_init new_backend 0) (ENext False) = Some s' \<and> sys_consumer s' = Idle \<and>
        last_outcome s' \<noteq> Some NextBlocked"
proof -
  have "sys_inv (sys_init new_backend 0)"
    by (rule sys_init_inv [OF backend_inv_new_backend]) (simp add: new_backend_def)
  moreover have "sys_consumer (sys_init new_backend 0) \<noteq> Waiting" by (simp add: sys_init_stream)
  ultimately show ?thesis by (rule nonblocking_next_returns)
qed

text \<open>
  C16. Closing the tailing stream releases exactly its own subscription to the change
  notifier, marks the stream closed, and every later \<open>Next\<close> returns false
  with the closed error.
\<close>

theorem stream_close_releases:
  assumes inv: "sys_inv s" and st: "sys_step s EClose = Some s'"
  shows "set (listeners (on_change (sys_backend s'))) =
           set (listeners (on_change (sys_backend s))) - {changed (gen_state (sys_stream s))} \<and>
         stream_closed (sys_stream s') \<and>
         (\<forall>blk. sys_consumer s' \<noteq> Waiting \<longrightarrow>
            (\<exists>s''. sys_step s' (ENext blk) = Some s'' \<and> last_outcome s'' = Some NextFalse \<and>
                   stream_err (sys_stream s'') = Some ErrStreamClosed))"
proof -
  let ?b = "sys_backend s" and ?T = "sys_stream s"
  let ?c = "changed (gen_state ?T)"
  have ch: "chan_inv ?b ?T" using inv by (simp add: sys_inv_def)
  have l: "set (listeners (on_change (sys_backend s'))) = set (listeners (on_change ?b)) - {?c}"
    and c: "stream_closed (sys_stream s')"
    using st ch by (auto simp: stream_close_def chan_inv_def sync_close_def split: if_splits)
  have "sys_consumer s' \<noteq> Waiting \<Longrightarrow>
        \<exists>s''. sys_step s' (ENext blk) = Some s'' \<and> last_outcome s'' = Some NextFalse \<and>
              stream_err (sys_stream s'') = Some ErrStreamClosed" for blk
    using c by (simp add: stream_next_def observe_def)
  with l c show ?thesis by blast
qed

theorem stream_close_releases_witness:
  "let s = the (sys_run (sys_init new_backend 0) [EPut (mkRecord (PUser ''user1'' ''user 1'' ''user1@example.com'')), ENext False]);
       s' = the (sys_step s EClose)
   in listeners (on_change (sys_backend s')) = [] \<and> stream_closed (sys_stream s') \<and>
      (\<exists>s''. sys_step s' (ENext True) = Some s'' \<and> last_outcome s'' = Some NextFalse \<and>
              stream_err (sys_stream s'') = Some ErrStreamClosed)"
proof -
  let ?es = "[EPut (mkRecord (PUser ''user1'' ''user 1'' ''user1@example.com'')), ENext False]"
  define s where "s = the (sys_run (sys_init new_backend 0) ?es)"
  define s' where "s' = the (sys_step s EClose)"
  have r: "sys_run (sys_init new_backend 0) ?es = Some s" unfolding s_def by (simp add: sys_eval)
  have inv: "sys_inv s"
    by (rule sys_run_init_inv [OF backend_inv_new_backend _ _ r]) (simp_all add: new_backend_def)
  have st: "sys_step s EClose = Some s'" and w: "sys_consumer s' \<noteq> Waiting"
    and l0: "listeners (on_change (sys_backend s)) = [changed (gen_state (sys_stream s))]"
    unfolding s'_def s_def by (simp_all add: sys_eval)
  from stream_close_releases [OF inv st] w l0
  have "set (listeners (on_change (sys_backend s'))) = {} \<and> stream_closed (sys_stream s') \<and>
      (\<exists>s''. sys_step s' (ENext True) = Some s'' \<and> last_outcome s'' = Some NextFalse \<and>
              stream_err (sys_stream s'') = Some ErrStreamClosed)" by simp
  then show ?thesis unfolding Let_def s_def [symmetric] s'_def [symmetric] by simp
qed

text \<open>
  C17. No subscription leak (spec section 8): opening and closing tailing streams any
  number of times in sequence leaves the notifier's subscriber list as it was; from an
  empty store, after 1000 cycles it is empty.
\<close>

theorem no_subscription_leak:
  "signal_inv (on_change b) \<Longrightarrow> listeners (on_change (open_close n v b)) = listeners (on_change b)"
proof (induction n arbitrary: b)
  case 0
  then show ?case by simp
next
  case (Suc n)
  then show ?case using Suc.IH open_close_one [OF Suc.prems, of v] by (simp add: Let_def split_def)
qed

theorem no_subscription_leak_witness:
  "length (listeners (on_change (open_close 1000 0 new_backend))) = 0"
proof -
  have "signal_inv (on_change new_backend)" by (simp add: new_backend_def signal_inv_def)
  from no_subscription_leak [OF this, of 1000 0] show ?thesis by (simp add: new_backend_def)
qed

text \<open>
  C24. Once a \<open>Next\<close> of the tailing stream has returned false, the stream
  never delivers again, whatever is written afterwards: a non-blocking \<open>Next\<close>
  that finds nothing new drops the stream's only generator (spec gap: the spec's
  stream-step-done reads as "nothing more right now").
\<close>

theorem live_stream_ends_on_false:
  assumes "sys_step s (ENext blk) = Some s1" and "last_outcome s1 = Some NextFalse"
    and "sys_run s1 es = Some s2"
  shows "delivered s2 = delivered s1"
  using stream_ended_run [OF next_false_ended [OF assms(1,2)] assms(3)] .

theorem live_stream_ends_on_false_witness:
  "let u = mkRecord (PUser ''user1'' ''user 1'' ''user1@example.com'');
       s1 = the (sys_step (sys_init new_backend 0) (ENext False));
       s2 = the (sys_run s1 [EPut u, ENext False, ENext True])
   in delivered s2 = [] \<and> get_since 0 (sys_backend s2) \<noteq> []"
proof -
  define u where "u = mkRecord (PUser ''user1'' ''user 1'' ''user1@example.com'')"
  define s1 where "s1 = the (sys_step (sys_init new_backend 0) (ENext False))"
  define s2 where "s2 = the (sys_run s1 [EPut u, ENext False, ENext True])"
  have st: "sys_step (sys_init new_backend 0) (ENext False) = Some s1"
    and o: "last_outcome s1 = Some NextFalse" and r: "sys_run s1 [EPut u, ENext False, ENext True] = Some s2"
    and d1: "delivered s1 = []" and g: "get_since 0 (sys_backend s2) \<noteq> []"
    unfolding s2_def s1_def u_def by (simp_all add: sys_eval)
  from live_stream_ends_on_false [OF st o r] d1 g
  show ?thesis unfolding Let_def u_def [symmetric] s1_def [symmetric] s2_def [symmetric] by simp
qed

text \<open>
  C26. A cursor ahead of the store is trusted: a tailing stream opened one version past the
  store's counter never returns the next record written, although that record is stored.
\<close>

theorem cursor_ahead_skips:
  assumes inv: "backend_inv b" and op: "\<not> is_closed b" and room: "has_room b"
    and r: "sys_run (sys_init b (last_version b + 1)) [EPut x, ENext False] = Some s"
  shows "delivered s = [] \<and> last_outcome s = Some NextFalse \<and>
         x\<lparr>rec_version := last_version b + 1\<rparr> \<in> set (all_records (sys_backend s))"
proof -
  let ?V = "last_version b + 1"
  let ?s0 = "sys_init b ?V"
  have inv0: "backend_inv (sys_backend ?s0)" and lv: "last_version (sys_backend ?s0) = last_version b"
    using sys_init_backend_inv [OF inv] by (simp_all add: sys_init_fields)
  obtain v b1 where p: "put x (sys_backend ?s0) = Inr (v, b1)"
    using op by (simp add: put_def Let_def sys_init_stream)
  have v: "v = ?V" "last_version b1 = ?V" using put_version [OF p] lv by simp_all
  have room0: "has_room (sys_backend ?s0)" using room lv by (simp add: has_room_def)
  have inv1: "backend_inv b1" using put_inv [OF inv0 room0 p] .
  have g: "get_since ?V b1 = []" using get_since_last_version [OF inv1] v by simp
  let ?s1 = "?s0\<lparr>sys_backend := b1\<rparr>"
  have c1: "\<not> is_closed b1" using p by (simp add: put_Inr)
  have sp: "sys_step ?s0 (EPut x) = Some ?s1" using p by simp
  have nx: "sys_step ?s1 (ENext False) = Some (observe NextFalse (?s1\<lparr>sys_stream := sys_stream ?s0\<lparr>generators := [],
      gen_state := gen_state (sys_stream ?s0)\<lparr>ready := []\<rparr>, current := None\<rparr>\<rparr>))"
    using sys_next_live [of ?s1] g c1 by (simp add: sys_init_stream stream_live_def sync_gen_def sync_poll_def)
  have "sys_run ?s0 [EPut x, ENext False] = Some (observe NextFalse (?s1\<lparr>sys_stream := sys_stream ?s0\<lparr>generators := [],
      gen_state := gen_state (sys_stream ?s0)\<lparr>ready := []\<rparr>, current := None\<rparr>\<rparr>))"
    by (simp only: sys_run.simps sp nx option.case)
  with r have s: "s = observe NextFalse (?s1\<lparr>sys_stream := sys_stream ?s0\<lparr>generators := [],
      gen_state := gen_state (sys_stream ?s0)\<lparr>ready := []\<rparr>, current := None\<rparr>\<rparr>)" by simp
  have "x\<lparr>rec_version := ?V\<rparr> \<in> set (all_records b1)"
    using p v by (auto simp: put_Inr set_all_records)
  with s show ?thesis by (simp add: observe_def sys_init_fields)
qed

theorem cursor_ahead_skips_witness:
  "let u = mkRecord (PUser ''user1'' ''user 1'' ''user1@example.com'');
       s = the (sys_run (sys_init new_backend 1) [EPut u, ENext False])
   in delivered s = [] \<and> last_outcome s = Some NextFalse \<and> u\<lparr>rec_version := 1\<rparr> \<in> set (all_records (sys_backend s))"
proof -
  define u where "u = mkRecord (PUser ''user1'' ''user 1'' ''user1@example.com'')"
  define s where "s = the (sys_run (sys_init new_backend 1) [EPut u, ENext False])"
  have l: "last_version new_backend + 1 = 1" and op: "\<not> is_closed new_backend" and h: "has_room new_backend"
    by (simp_all add: new_backend_def has_room_def)
  have r: "sys_run (sys_init new_backend (last_version new_backend + 1)) [EPut u, ENext False] = Some s"
    unfolding s_def l by (simp add: sys_eval u_def)
  from cursor_ahead_skips [OF backend_inv_new_backend op h r] l
  show ?thesis unfolding Let_def u_def [symmetric] s_def [symmetric] by simp
qed

section \<open>The record store seen through the tailing generator\<close>

text \<open>
  C19. Exactly-once catch-up (spec section 3): when the tailing generator's poll returns a
  record, that record and the buffer it keeps are exactly the store's records newer than
  the cursor, and the advanced cursor leaves nothing newer, so a re-poll without an
  intervening \<open>Put\<close> returns nothing again.
\<close>

theorem poll_exactly_once:
  assumes "backend_inv b" and "sync_poll b blk ls = (GRecord r, ls')"
  shows "r # ready ls' = get_since (record_version ls) b \<and> get_since (record_version ls') b = []"
  using sync_poll_record [OF assms(2)] get_since_caught_up [OF assms(1)] by metis

theorem poll_exactly_once_witness:
  "let b = snd (projr (put (mkRecord (PUser ''userB'' ''user B'' ''userB@example.com''))
              (snd (projr (put (mkRecord (PGroup ''groupA'' ''group A'' ''groupA@example.com'')) new_backend)))));
       ls = \<lparr>ready = [], record_version = 0, changed = 0\<rparr>
   in \<exists>r. sync_poll b False ls = (GRecord r, snd (sync_poll b False ls)) \<and>
         r # ready (snd (sync_poll b False ls)) = get_since 0 b \<and>
         get_since (record_version (snd (sync_poll b False ls))) b = []"
proof -
  define b where "b = snd (projr (put (mkRecord (PUser ''userB'' ''user B'' ''userB@example.com''))
              (snd (projr (put (mkRecord (PGroup ''groupA'' ''group A'' ''groupA@example.com'')) new_backend)))))"
  define ls :: sync_state where "ls = \<lparr>ready = [], record_version = 0, changed = 0\<rparr>"
  have inv: "backend_inv b"
    unfolding b_def by (simp add: sys_eval backend_inv_def coll_inv_def signal_inv_def)
  obtain r where p: "sync_poll b False ls = (GRecord r, snd (sync_poll b False ls))"
    unfolding b_def ls_def by (simp add: sys_eval sync_poll_def)
  from poll_exactly_once [OF inv p] p
  have "\<exists>r. sync_poll b False ls = (GRecord r, snd (sync_poll b False ls)) \<and>
         r # ready (snd (sync_poll b False ls)) = get_since 0 b \<and>
         get_since (record_version (snd (sync_poll b False ls))) b = []"
    by (auto simp: ls_def)
  then show ?thesis unfolding Let_def b_def [symmetric] ls_def [symmetric] .
qed

text \<open>
  C20. Put then poll round trip: a record written by \<open>Put\<close> on a well-formed
  store is exactly what the next poll of a tailing stream that was up to date returns,
  with its stamped version, and the cursor moves to that version.
\<close>

theorem put_poll_roundtrip:
  assumes "backend_inv b" and "has_room b" and "put r b = Inr (v, b')"
  shows "sync_poll b' blk \<lparr>ready = [], record_version = last_version b, changed = c\<rparr> =
           (GRecord (r\<lparr>rec_version := v\<rparr>), \<lparr>ready = [], record_version = v, changed = c\<rparr>)"
proof -
  have "get_since (last_version b) b' = [r\<lparr>rec_version := v\<rparr>]"
    using get_since_put [OF assms order.refl] get_since_last_version [OF assms(1)] by simp
  then show ?thesis by (simp add: sync_poll_def)
qed

theorem put_poll_roundtrip_witness:
  "let b = new_backend; r = mkRecord (PUser ''user1'' ''user 1'' ''user1@example.com'')
   in sync_poll (snd (projr (put r b))) False \<lparr>ready = [], record_version = 0, changed = 0\<rparr> =
        (GRecord (r\<lparr>rec_version := 1\<rparr>), \<lparr>ready = [], record_version = 1, changed = 0\<rparr>)"
proof -
  define r where "r = mkRecord (PUser ''user1'' ''user 1'' ''user1@example.com'')"
  have h: "has_room new_backend" and l: "last_version new_backend = 0" by (simp_all add: has_room_def new_backend_def)
  have p: "put r new_backend = Inr (1, snd (projr (put r new_backend)))"
    by (simp add: r_def sys_eval)
  from put_poll_roundtrip [OF backend_inv_new_backend h p, of False 0] l
  show ?thesis unfolding Let_def r_def [symmetric] by simp
qed

text \<open>
  C25. Version wrap-around: a \<open>Put\<close> on a store whose \<open>uint64\<close>
  counter is at its maximum stamps version 0; the record is stored, but no poll of a
  tailing stream, at any cursor, ever returns or buffers it.
\<close>

theorem put_wrap_invisible:
  assumes "last_version b = - 1" and "put r b = Inr (v, b')"
  shows "v = 0 \<and> r\<lparr>rec_version := v\<rparr> \<in> set (all_records b') \<and>
         (\<forall>ls res ls'. sync_poll b' blk ls = (res, ls') \<longrightarrow>
            res \<noteq> GRecord (r\<lparr>rec_version := v\<rparr>) \<and> r\<lparr>rec_version := v\<rparr> \<notin> set (ready ls'))"
proof -
  have v: "v = 0" using assms put_version [OF assms(2)] by simp
  have in_all: "r\<lparr>rec_version := v\<rparr> \<in> set (all_records b')"
    using assms(2) by (auto simp: put_Inr set_all_records)
  have out: "r\<lparr>rec_version := v\<rparr> \<notin> set (get_since w b')" for w
    using v by (simp add: get_since_set)
  have "res \<noteq> GRecord (r\<lparr>rec_version := v\<rparr>) \<and> r\<lparr>rec_version := v\<rparr> \<notin> set (ready ls')"
    if p: "sync_poll b' blk ls = (res, ls')" for ls res ls'
  proof (cases "get_since (record_version ls) b'")
    case Nil
    with p show ?thesis by (auto simp: sync_poll_def split: if_splits)
  next
    case (Cons y ys)
    with p out [of "record_version ls"] show ?thesis by (auto simp: sync_poll_def)
  qed
  then have "\<forall>ls res ls'. sync_poll b' blk ls = (res, ls') \<longrightarrow>
            res \<noteq> GRecord (r\<lparr>rec_version := v\<rparr>) \<and> r\<lparr>rec_version := v\<rparr> \<notin> set (ready ls')" by blast
  with v in_all show ?thesis by blast
qed

theorem put_wrap_invisible_witness:
  "let b = new_backend\<lparr>last_version := - 1\<rparr>; r = mkRecord (PUser ''user1'' ''user 1'' ''user1@example.com'')
   in \<exists>v b'. put r b = Inr (v, b') \<and> v = 0 \<and> r\<lparr>rec_version := 0\<rparr> \<in> set (all_records b') \<and>
        fst (sync_poll b' True \<lparr>ready = [], record_version = 0, changed = 0\<rparr>) = GBlock"
proof -
  define b where "b = new_backend\<lparr>last_version := - 1\<rparr>"
  define r where "r = mkRecord (PUser ''user1'' ''user 1'' ''user1@example.com'')"
  have l: "last_version b = - 1" unfolding b_def by (simp add: new_backend_def)
  define v where "v = fst (projr (put r b))"
  define b' where "b' = snd (projr (put r b))"
  have p: "put r b = Inr (v, b')"
    unfolding v_def b'_def b_def r_def by (simp add: sys_eval)
  have v: "v = 0" and a: "r\<lparr>rec_version := v\<rparr> \<in> set (all_records b')"
    using put_wrap_invisible [OF l p, of True] by blast+
  have "fst (sync_poll b' True \<lparr>ready = [], record_version = 0, changed = 0\<rparr>) = GBlock"
    unfolding b'_def b_def r_def by (simp add: sys_eval sync_poll_def)
  with p v a show ?thesis unfolding Let_def b_def [symmetric] r_def [symmetric] by blast
qed

section \<open>The snapshot stream\<close>

text \<open>
  C18. The snapshot stream of an open store, pulled without blocking until it reports
  false, returns exactly the store's records, collection by collection, as of the first
  pull.
\<close>

theorem snapshot_drain:
  assumes "\<not> is_closed b" and "length (all_records b) < n"
  shows "fst (drain n False b newSyncLatestRecordStream) = all_records b"
proof -
  from assms(2) obtain m where n: "n = Suc m" by (cases n) auto
  show ?thesis
  proof (cases "all_records b")
    case Nil
    with assms n show ?thesis by (simp add: snapshot_first_next)
  next
    case (Cons r rs)
    let ?st = "newSyncLatestRecordStream\<lparr>generators := [sync_latest_pop], gen_state := rs, current := Some r\<rparr>"
    have live: "stream_live ?st b"
      using assms by (simp add: stream_live_def newSyncLatestRecordStream_def new_record_stream_def)
    have "fst (drain m False b ?st) = rs"
      using snapshot_drain_pop [OF live] assms n Cons by simp
    with assms n Cons show ?thesis by (simp add: snapshot_first_next split_def)
  qed
qed

theorem snapshot_drain_witness:
  "let b = snd (projr (put (mkRecord (PGroup ''group1'' ''group 1'' ''group1@example.com'')) new_backend))
   in fst (drain 2 False b newSyncLatestRecordStream) = all_records b \<and> length (all_records b) = 1"
proof -
  define b where "b = snd (projr (put (mkRecord (PGroup ''group1'' ''group 1'' ''group1@example.com'')) new_backend))"
  have c: "\<not> is_closed b" and l: "length (all_records b) < 2" and l1: "length (all_records b) = 1"
    unfolding b_def by (simp_all add: sys_eval)
  show ?thesis using snapshot_drain [OF c l] l1 by (simp add: b_def [symmetric] Let_def)
qed

section \<open>The identity manager\<close>

text \<open>
  C6. Ingestion dispatch (spec sections 4.6 and 8): ingesting the record
  \<open>mkRecord\<close> builds for a group, directory user, session or platform user
  updates exactly the matching cache (sessions under \<open>(userID, sessionID)\<close>,
  platform users also rescheduled at \<open>now() + interval\<close>) and nothing else; a
  message of any other type changes nothing.
\<close>

theorem ingest_dispatch:
  "onUpdateRecords m [mkRecord p] =
     (case p of
        PGroup i _ _ \<Rightarrow> m\<lparr>directoryGroups := (directoryGroups m)(i \<mapsto> p)\<rparr>
      | PDirUser i _ _ _ \<Rightarrow> m\<lparr>directoryUsers := (directoryUsers m)(i \<mapsto> p)\<rparr>
      | PSession sid uid \<Rightarrow> m\<lparr>sessions := (sessions m)((uid, sid) \<mapsto> p)\<rparr>
      | PUser i _ _ \<Rightarrow> m\<lparr>users := (users m)(i \<mapsto> p),
           userScheduler := schedule_add i (clock m + refresh_interval m) (schedule_remove i (userScheduler m))\<rparr>
      | POpaque _ _ \<Rightarrow> m)"
  by (cases p) (simp_all add: onUpdateRecords_def on_update_record_def on_update_user_def mkRecord_def Let_def)

text \<open>
  C7. Backoff growth (spec section 8): two consecutive failed refreshes, after any
  history, return non-decreasing delays, strictly increasing unless the second is already
  the cap.
\<close>

theorem backoff_failures_grow:
  "\<exists>pre d1 d2. fst (refresh_loop (os @ [Inl e1, Inl e2]) rnd (test_manager now) b) = pre @ [d1, d2] \<and>
     d1 \<le> d2 \<and> (d1 < d2 \<or> d2 = hour)"
proof -
  obtain pre m1 b1 where r: "refresh_loop os rnd (test_manager now) b = (pre, m1, b1)"
    by (cases "refresh_loop os rnd (test_manager now) b") auto
  from refresh_loop_inv [OF manager_inv_test_manager r]
  have inv: "manager_inv m1" and h: "refresh_interval m1 = hour"
    by (simp_all add: test_manager_def new_manager_def)
  let ?bo = "directory_backoff m1"
  have bi: "backoff_inv ?bo" and mx: "max_interval ?bo = hour" using manager_invD [OF inv] h by simp_all
  have inv2: "manager_inv (m1\<lparr>directory_backoff := increment_interval ?bo\<rparr>)"
    using inv backoff_inv_increment [OF bi]
    by (rule manager_inv_backoff) (simp_all add: increment_interval_def manager_invD [OF inv])
  have ds: "fst (refresh_loop (os @ [Inl e1, Inl e2]) rnd (test_manager now) b) =
      pre @ [current_interval ?bo, current_interval (increment_interval ?bo)]"
    using r refresh_fail [OF inv] refresh_fail [OF inv2] by (simp add: refresh_loop_append)
  have "current_interval ?bo \<le> current_interval (increment_interval ?bo) \<and>
      (current_interval ?bo < current_interval (increment_interval ?bo) \<or> current_interval (increment_interval ?bo) = hour)"
  proof (cases "current_interval ?bo < max_interval ?bo")
    case True
    with increment_grows [OF bi] show ?thesis by simp
  next
    case False
    with increment_mono [OF bi] increment_le_max [OF bi] mx show ?thesis by simp
  qed
  with ds show ?thesis by blast
qed

text \<open>
  C8. The user schedule refines the map from user id to due time: ingesting a platform
  user schedules it at \<open>now() + refresh interval\<close> and caches it; its
  tombstone unschedules and uncaches it.
\<close>

theorem user_schedule_refines:
  assumes inv: "manager_inv m"
  shows "sched_abs (userScheduler (onUpdateRecords m [mkRecord (PUser i n e)])) =
           (sched_abs (userScheduler m))(i \<mapsto> clock m + refresh_interval m) \<and>
         users (onUpdateRecords m [mkRecord (PUser i n e)]) i = Some (PUser i n e) \<and>
         sched_abs (userScheduler (onUpdateRecords m [(mkRecord (PUser i n e))\<lparr>rec_deleted := True\<rparr>])) =
           (sched_abs (userScheduler m))(i := None) \<and>
         users (onUpdateRecords m [(mkRecord (PUser i n e))\<lparr>rec_deleted := True\<rparr>]) i = None"
proof -
  have si: "sched_inv (userScheduler m)" using manager_invD [OF inv] by simp
  have u: "onUpdateRecords m [mkRecord (PUser i n e)] = on_update_user m False i (PUser i n e)"
    and d: "onUpdateRecords m [(mkRecord (PUser i n e))\<lparr>rec_deleted := True\<rparr>] = on_update_user m True i (PUser i n e)"
    by (simp_all add: onUpdateRecords_def on_update_record_def mkRecord_def)
  have "users (on_update_user m False i (PUser i n e)) i = Some (PUser i n e)"
    and "users (on_update_user m True i (PUser i n e)) i = None"
    by (simp_all add: on_update_user_def Let_def)
  with on_update_user_sched [OF si, of False i] on_update_user_sched [OF si, of True i]
  show ?thesis unfolding u d by simp
qed

theorem user_schedule_refines_witness:
  "sched_abs (userScheduler (onUpdateRecords (test_manager 0) [mkRecord (PUser ''user2'' ''user 2'' ''user2@example.com'')])) ''user2'' = Some hour \<and>
   users (onUpdateRecords (test_manager 0) [(mkRecord (PUser ''user2'' ''user 2'' ''user2@example.com''))\<lparr>rec_deleted := True\<rparr>]) ''user2'' = None"
  using user_schedule_refines [OF manager_inv_test_manager [of 0], of "''user2''" "''user 2''" "''user2@example.com''"]
  by (simp add: test_manager_def new_manager_def)

text \<open>
  C9. \<open>Next\<close> of the user scheduler, after any records are ingested into the
  test's manager, returns the globally earliest entry (ties by id), which belongs to a
  cached platform user.
\<close>

theorem scheduler_next_earliest:
  assumes nx: "schedule_next (userScheduler (onUpdateRecords (test_manager now) rs)) = Some (t, i)"
  shows "users (onUpdateRecords (test_manager now) rs) i \<noteq> None \<and>
         sched_abs (userScheduler (onUpdateRecords (test_manager now) rs)) i = Some t \<and>
         (\<forall>j u. sched_abs (userScheduler (onUpdateRecords (test_manager now) rs)) j = Some u \<longrightarrow> (t, i) \<le> (u, j))"
proof -
  let ?m = "onUpdateRecords (test_manager now) rs"
  have inv: "manager_inv ?m" using manager_inv_onUpdateRecords [OF manager_inv_test_manager] .
  have l: "sched_abs (userScheduler ?m) i = Some t \<and> (\<forall>j u. sched_abs (userScheduler ?m) j = Some u \<longrightarrow> (t, i) \<le> (u, j))"
    using schedule_next_least [OF manager_invD(4) [OF inv] nx] .
  then have "i \<in> dom (users ?m)" using manager_invD(5) [OF inv] by blast
  with l show ?thesis by blast
qed

theorem scheduler_next_earliest_witness:
  "users (onUpdateRecords (test_manager 0) test_update_records) ''user1'' \<noteq> None \<and>
   sched_abs (userScheduler (onUpdateRecords (test_manager 0) test_update_records)) ''user1'' = Some hour"
proof -
  have "schedule_next (userScheduler (onUpdateRecords (test_manager 0) test_update_records)) = Some (hour, ''user1'')"
    by (simp add: onUpdateRecords_def test_update_records_def test_manager_def new_manager_def
      on_update_record_def on_update_user_def mkRecord_def schedule_defs)
  from scheduler_next_earliest [OF this] show ?thesis by simp
qed

text \<open>
  C11. Per-user refresh cadence (spec section 4.6): when the earliest scheduled user is
  due, one step of the refresh driver schedules it again one refresh interval after now,
  writes what the provider's \<open>User\<close> returns to the store (nothing on error), leaves
  the caches to ingestion, and preserves the manager's invariant.
\<close>

theorem user_refresh_cadence:
  assumes inv: "manager_inv m" and nx: "schedule_next (userScheduler m) = Some (t, i)" and due: "t \<le> clock m"
  shows "let (m', b') = refresh_user_tick (\<lambda>uid. provider_User p uid tok) m b
         in sched_abs (userScheduler m') = (sched_abs (userScheduler m))(i \<mapsto> clock m + refresh_interval m) \<and>
            manager_caches m' = manager_caches m \<and>
            b' = (case mock_user p i tok of Inl _ \<Rightarrow> b | Inr u \<Rightarrow> put_all [mkRecord u] b) \<and>
            manager_inv m'"
proof -
  let ?f = "\<lambda>uid. provider_User p uid tok"
  from user_tick_due [OF manager_invD(4,5) [OF inv] nx due, of ?f b]
  obtain s' where r: "refresh_user_tick ?f m b =
      (m\<lparr>userScheduler := schedule_add i (clock m + refresh_interval m) s'\<rparr>,
       case ?f i of Inl _ \<Rightarrow> b | Inr u' \<Rightarrow> put_all [mkRecord u'] b)" by blast
  have c1: "sched_abs (userScheduler (fst (refresh_user_tick ?f m b))) =
           (sched_abs (userScheduler m))(i \<mapsto> clock m + refresh_interval m)"
    using user_tick_due_sched [OF manager_invD(4,5) [OF inv] nx due] by blast
  have c2: "manager_caches (fst (refresh_user_tick ?f m b)) = manager_caches m"
    using r by (simp add: manager_caches_def)
  have c3: "snd (refresh_user_tick ?f m b) = (case mock_user p i tok of Inl _ \<Rightarrow> b | Inr u \<Rightarrow> put_all [mkRecord u] b)"
    using r by (simp add: provider_User_def)
  show ?thesis using c1 c2 c3 manager_inv_user_tick [OF inv, of ?f b] by (simp add: split_def)
qed

theorem user_refresh_cadence_witness:
  "let m = (onUpdateRecords (test_manager 0) test_update_records)\<lparr>clock := hour\<rparr>;
       u = PDirUser ''user1'' ''User One'' ''user1@example.com'' [''group1''];
       p = \<lparr>mock_user = (\<lambda>uid tok. Inr u), mock_userGroups = backoff_userGroups\<rparr>;
       r = refresh_user_tick (\<lambda>uid. provider_User p uid '''') m new_backend
   in sched_abs (userScheduler (fst r)) ''user1'' = Some (2 * hour) \<and> manager_caches (fst r) = manager_caches m \<and>
      snd r = put_all [mkRecord u] new_backend \<and> manager_inv (fst r)"
proof -
  define m where "m = (onUpdateRecords (test_manager 0) test_update_records)\<lparr>clock := hour\<rparr>"
  define u where "u = PDirUser ''user1'' ''User One'' ''user1@example.com'' [''group1'']"
  define p where "p = \<lparr>mock_user = (\<lambda>(uid::string) (tok::string). Inr u :: string + payload), mock_userGroups = backoff_userGroups\<rparr>"
  have inv: "manager_inv m"
    unfolding m_def using manager_inv_onUpdateRecords [OF manager_inv_test_manager] by simp
  have nx: "schedule_next (userScheduler m) = Some (hour, ''user1'')" and due: "hour \<le> clock m"
    and rf: "refresh_interval m = hour" and ck: "clock m = hour"
    by (simp_all add: m_def onUpdateRecords_def test_update_records_def test_manager_def new_manager_def
      on_update_record_def on_update_user_def mkRecord_def schedule_defs)
  from user_refresh_cadence [OF inv nx due, of p "''''" new_backend] rf ck
  show ?thesis unfolding Let_def m_def [symmetric] u_def [symmetric] p_def [symmetric]
    by (simp add: p_def split_def)
qed

text \<open>
  C12. The per-user refresh driver terminates (spec section 4.6): from any manager
  satisfying its invariant, whose refresh interval is positive, the driver returns. It
  changes only the schedule, where every entry due now moves to now + interval and every
  other entry stays, so no user is due afterwards.
\<close>

theorem per_user_driver_terminates:
  assumes "manager_inv m"
  shows "\<exists>s b'. refresh_due (\<lambda>uid. provider_User p uid tok) m b = Some (m\<lparr>userScheduler := s\<rparr>, b') \<and>
           manager_inv (m\<lparr>userScheduler := s\<rparr>) \<and>
           sched_abs s = advance_due (clock m) (refresh_interval m) (sched_abs (userScheduler m))"
  using assms
proof (induction "due_count m" arbitrary: m b rule: less_induct)
  case less
  let ?f = "\<lambda>uid. provider_User p uid tok"
  note inv = less.prems
  show ?case
  proof (cases "\<exists>t i. schedule_next (userScheduler m) = Some (t, i) \<and> t \<le> clock m")
    case False
    with driver_idle [OF manager_invD(4) [OF inv]] inv show ?thesis
      by (intro exI [of _ "userScheduler m"] exI [of _ b]) simp
  next
    case True
    then obtain t i where nx: "schedule_next (userScheduler m) = Some (t, i)" and due: "t \<le> clock m" by blast
    obtain m1 b1 where tk: "refresh_user_tick ?f m b = (m1, b1)" by (cases "refresh_user_tick ?f m b")
    from driver_step [OF inv nx due tk] obtain s1 where m1: "m1 = m\<lparr>userScheduler := s1\<rparr>"
      and inv1: "manager_inv m1" and lt: "due_count m1 < due_count m"
      and r: "refresh_due ?f m b = refresh_due ?f m1 b1"
      and ad: "advance_due (clock m) (refresh_interval m) (sched_abs s1) =
               advance_due (clock m) (refresh_interval m) (sched_abs (userScheduler m))" by blast
    from less.hyps [OF lt inv1, of b1] obtain s b' where "refresh_due ?f m1 b1 = Some (m1\<lparr>userScheduler := s\<rparr>, b')"
      and "manager_inv (m1\<lparr>userScheduler := s\<rparr>)"
      and "sched_abs s = advance_due (clock m1) (refresh_interval m1) (sched_abs (userScheduler m1))" by blast
    with r m1 ad show ?thesis by auto
  qed
qed

theorem per_user_driver_terminates_witness:
  "let m = (onUpdateRecords (test_manager 0) test_update_records)\<lparr>clock := hour\<rparr>
   in \<exists>s b'. refresh_due (\<lambda>uid. provider_User backoff_provider uid '''') m new_backend = Some (m\<lparr>userScheduler := s\<rparr>, b') \<and>
             sched_abs s ''user1'' = Some (2 * hour)"
proof -
  define m where "m = (onUpdateRecords (test_manager 0) test_update_records)\<lparr>clock := hour\<rparr>"
  have inv: "manager_inv m"
    unfolding m_def using manager_inv_onUpdateRecords [OF manager_inv_test_manager] by simp
  have a: "sched_abs (userScheduler m) ''user1'' = Some hour" and rf: "refresh_interval m = hour" and ck: "clock m = hour"
    by (simp_all add: m_def onUpdateRecords_def test_update_records_def test_manager_def new_manager_def
      on_update_record_def on_update_user_def mkRecord_def schedule_defs sched_abs_def)
  from per_user_driver_terminates [OF inv, of backoff_provider "''''" new_backend]
  obtain s b' where r: "refresh_due (\<lambda>uid. provider_User backoff_provider uid '''') m new_backend =
      Some (m\<lparr>userScheduler := s\<rparr>, b')"
    and ab: "sched_abs s = advance_due (clock m) (refresh_interval m) (sched_abs (userScheduler m))" by blast
  have "sched_abs s ''user1'' = Some (2 * hour)" using ab a rf ck by (simp add: advance_due_def)
  then show ?thesis using r unfolding Let_def m_def [symmetric] by blast
qed

text \<open>
  C13. The caches are well typed (spec section 3): ingesting any records, malformed ones
  included, keeps every cache mapping an id to a message of its kind with that id, and
  every session under its own user and session ids.
\<close>

theorem caches_well_typed: "cache_wt m \<Longrightarrow> cache_wt (onUpdateRecords m rs)"
  unfolding onUpdateRecords_def
  by (induction rs arbitrary: m) (simp_all add: cache_wt_on_update_record)

theorem caches_well_typed_witness:
  "cache_wt (test_manager 0) \<and> cache_wt (onUpdateRecords (test_manager 0) test_update_records)"
proof -
  have c: "cache_wt (test_manager 0)" by (simp add: cache_wt_def test_manager_def new_manager_def)
  show ?thesis using c caches_well_typed [OF c, of test_update_records] by simp
qed

text \<open>
  C21. Backoff reset: after a successful refresh (which waits the full interval) the next
  failure waits the initial interval again.
\<close>

theorem backoff_success_resets:
  "\<exists>pre. fst (refresh_loop (os @ [Inr r, Inl e]) rnd (test_manager now) b) = pre @ [hour, 500000000]"
proof -
  obtain pre m1 b1 where l: "refresh_loop os rnd (test_manager now) b = (pre, m1, b1)"
    by (cases "refresh_loop os rnd (test_manager now) b") auto
  from refresh_loop_inv [OF manager_inv_test_manager l] refresh_loop_initial [OF l]
  have inv: "manager_inv m1" and h: "refresh_interval m1 = hour"
    and i: "initial_interval (directory_backoff m1) = 500000000"
    by (simp_all add: test_manager_def new_manager_def new_exponential_backoff_def)
  obtain gs us where rr: "r = (gs, us)" by (cases r)
  let ?m2 = "m1\<lparr>directory_backoff := reset_backoff (directory_backoff m1)\<rparr>"
  have inv2: "manager_inv ?m2"
    using inv backoff_inv_reset [OF manager_invD(1) [OF inv]]
    by (rule manager_inv_backoff) (simp_all add: reset_backoff_def manager_invD [OF inv])
  have "fst (refresh_loop (os @ [Inr r, Inl e]) rnd (test_manager now) b) =
      pre @ [refresh_interval m1, current_interval (reset_backoff (directory_backoff m1))]"
    using l rr refresh_fail [OF inv2] by (simp add: refresh_loop_append refresh_ok)
  with h i show ?thesis by (simp add: reset_backoff_def)
qed

text \<open>
  C22. Malformed or unknown records are skipped (spec section 7): a record whose type URL
  does not match its data, or whose data is of no known type, leaves the manager as it
  was.
\<close>

theorem ingest_skips_malformed:
  assumes "rec_type r \<noteq> type_url (rec_data r) \<or> rec_data r = POpaque t d"
  shows "onUpdateRecords m (rs @ [r]) = onUpdateRecords m rs"
  using on_update_record_skip [OF assms] by (simp add: onUpdateRecords_def)

theorem ingest_skips_malformed_witness:
  "let r = (mkRecord (PUser ''user1'' ''user 1'' ''user1@example.com''))\<lparr>rec_type := ''type.googleapis.com/directory.Group''\<rparr>
   in onUpdateRecords (test_manager 0) (test_update_records @ [r]) = onUpdateRecords (test_manager 0) test_update_records"
proof -
  define r where "r = (mkRecord (PUser ''user1'' ''user 1'' ''user1@example.com''))\<lparr>rec_type := ''type.googleapis.com/directory.Group''\<rparr>"
  have "rec_type r \<noteq> type_url (rec_data r) \<or> rec_data r = POpaque '''' ''''"
    by (simp add: r_def mkRecord_def)
  from ingest_skips_malformed [OF this] show ?thesis unfolding Let_def r_def [symmetric] .
qed

text \<open>
  C23. The manager's invariant (well-formed backoff capped at the refresh interval with
  randomization off, well-formed schedule holding exactly the cached users) holds after
  any ingestion and any sequence of directory refreshes from the test's manager.
\<close>

theorem manager_inv_reachable:
  "manager_inv (fst (snd (refresh_loop os rnd (onUpdateRecords (test_manager now) rs) b)))"
proof -
  obtain ds m' b' where r: "refresh_loop os rnd (onUpdateRecords (test_manager now) rs) b = (ds, m', b')"
    by (cases "refresh_loop os rnd (onUpdateRecords (test_manager now) rs) b") auto
  from refresh_loop_inv [OF manager_inv_onUpdateRecords [OF manager_inv_test_manager] r] r show ?thesis by simp
qed

text \<open>
  C27. A zero refresh interval makes the per-user driver diverge: once a platform user has
  been ingested by a manager built with \<open>WithGroupRefreshInterval(0)\<close>, the driver
  refreshes it and schedules it at \<open>now + 0\<close>, due again, for ever.
\<close>

theorem zero_interval_driver_diverges:
  "refresh_due fetch (onUpdateRecords (new_manager 0 now) [mkRecord (PUser i n e)]) b = None"
proof -
  let ?m = "onUpdateRecords (new_manager 0 now) [mkRecord (PUser i n e)]"
  have "sched_inv (userScheduler ?m)" "dom (sched_abs (userScheduler ?m)) = dom (users ?m)"
    "refresh_interval ?m \<le> 0" "sched_abs (userScheduler ?m) i = Some now" "now \<le> clock ?m"
    by (simp_all add: onUpdateRecords_def new_manager_def on_update_record_def on_update_user_def mkRecord_def
        schedule_defs sched_abs_def sched_inv_def)
  then show ?thesis by (rule refresh_due_diverges)
qed

section \<open>Directory synchronisation end to end\<close>

text \<open>
  C5. The caches follow the store (spec sections 3 and 5): if the manager's caches hold
  the store's live records before a successful directory refresh, then after the refresh
  writes the provider's groups and users and a live stream opened at the store's version
  delivers them, ingesting what it delivered leaves the caches holding the live records of
  the store the refresh wrote.
\<close>

theorem caches_follow_store:
  assumes "backend_inv b" and "\<not> is_closed b" and "distinct (map rec_key (map mkRecord (gs @ us)))"
    and "unat (last_version b) + length (gs @ us) < 2 ^ 64"
    and "list_all msg_wf (gs @ us)" and "caches_track m b"
    and r: "refreshDirectoryUserGroups (Inr (gs, us)) rnd m b = (d, m1, b1)"
  shows "\<exists>s'. sys_run (sys_init b (last_version b))
              (map EPut (map mkRecord (gs @ us)) @ replicate (Suc (length (gs @ us))) (ENext False)) = Some s' \<and>
              caches_track (onUpdateRecords m1 (delivered s')) b1"
proof -
  obtain s' where run: "sys_run (sys_init b (last_version b))
      (map EPut (map mkRecord (gs @ us)) @ replicate (Suc (length (map mkRecord (gs @ us)))) (ENext False)) = Some s'"
    and dl: "delivered s' = stamp (last_version b) (map mkRecord (gs @ us))"
    using puts_then_drain [OF assms(1,2,3)] assms(4) by auto
  have m1: "m1 = m\<lparr>directory_backoff := reset_backoff (directory_backoff m)\<rparr>"
    and b1: "b1 = put_all (map mkRecord (gs @ us)) b" using r by (simp_all add: refresh_ok)
  have "list_all rec_wt (map mkRecord (gs @ us))" using assms(5) by (simp add: list.pred_map comp_def)
  then have "caches_track (onUpdateRecords m1 (map mkRecord (gs @ us))) b1"
    using caches_track_put_all [OF _ assms(2), of m1] assms(6) m1 b1 by simp
  then show ?thesis using run dl onUpdateRecords_stamp by auto
qed

theorem caches_follow_store_witness:
  "let gs = [PGroup ''group1'' ''group 1'' ''group1@example.com''];
       us = [PDirUser ''user1'' ''user 1'' ''user1@example.com'' [''group1'']];
       (d, m1, b1) = refreshDirectoryUserGroups (Inr (gs, us)) 0 (test_manager 0) new_backend
   in \<exists>s'. sys_run (sys_init new_backend 0) (map EPut (map mkRecord (gs @ us)) @ replicate 3 (ENext False)) = Some s' \<and>
          caches_track (onUpdateRecords m1 (delivered s')) b1"
proof -
  define gs where "gs = [PGroup ''group1'' ''group 1'' ''group1@example.com'']"
  define us where "us = [PDirUser ''user1'' ''user 1'' ''user1@example.com'' [''group1'']]"
  obtain d m1 b1 where r: "refreshDirectoryUserGroups (Inr (gs, us)) 0 (test_manager 0) new_backend = (d, m1, b1)"
    by (cases "refreshDirectoryUserGroups (Inr (gs, us)) 0 (test_manager 0) new_backend") auto
  have h: "backend_inv new_backend" "\<not> is_closed new_backend" "distinct (map rec_key (map mkRecord (gs @ us)))"
    "unat (last_version new_backend) + length (gs @ us) < 2 ^ 64" "list_all msg_wf (gs @ us)"
    "caches_track (test_manager 0) new_backend"
    by (fact backend_inv_new_backend)
      (simp_all add: gs_def us_def rec_key_def mkRecord_def new_backend_def
        caches_track_def live_payload_def store_get_def test_manager_def new_manager_def)
  have l: "Suc (length (gs @ us)) = 3" by (simp add: gs_def us_def)
  have lv: "last_version new_backend = 0" by (simp add: new_backend_def)
  from caches_follow_store [OF h r, unfolded l lv]
  show ?thesis unfolding Let_def gs_def [symmetric] us_def [symmetric] r prod.case .
qed

text \<open>
  C28. A session that changes user leaves a stale cache entry: for any manager and any
  open store, if a session \<open>s\<close> owned by \<open>u\<close> is written, then rewritten as owned by
  \<open>u' \<noteq> u\<close>, then deleted, and the three records are ingested in that order, the store
  holds no live session \<open>s\<close> while the cache still holds it under \<open>(u, s)\<close>: the cache is
  keyed by the user id each record carries, the store by the session id alone.
\<close>

theorem session_cache_stale:
  assumes "u \<noteq> u'" and "\<not> is_closed b"
  shows "let r1 = mkRecord (PSession s u); r2 = mkRecord (PSession s u'); rs = [r1, r2, r2\<lparr>rec_deleted := True\<rparr>]
         in live_payload ''type.googleapis.com/session.Session'' s (put_all rs b) = None \<and>
            sessions (onUpdateRecords m rs) (u, s) = Some (PSession s u)"
proof -
  let ?r1 = "mkRecord (PSession s u)" and ?r2 = "mkRecord (PSession s u')"
  let ?r3 = "?r2\<lparr>rec_deleted := True\<rparr>"
  obtain v1 b1 where p1: "put ?r1 b = Inr (v1, b1)" using assms(2) by (simp add: put_def Let_def)
  have c1: "\<not> is_closed b1" using put_is_closed [OF p1] assms(2) by simp
  obtain v2 b2 where p2: "put ?r2 b1 = Inr (v2, b2)" using c1 by (simp add: put_def Let_def)
  have c2: "\<not> is_closed b2" using put_is_closed [OF p2] c1 by simp
  obtain v3 b3 where p3: "put ?r3 b2 = Inr (v3, b3)" using c2 by (simp add: put_def Let_def)
  have "put_all [?r1, ?r2, ?r3] b = b3" using p1 p2 p3 by simp
  moreover have "live_payload ''type.googleapis.com/session.Session'' s b3 = None"
    using live_payload_put [OF p3] by (simp add: mkRecord_def)
  moreover have "sessions (onUpdateRecords m [?r1, ?r2, ?r3]) (u, s) = Some (PSession s u)"
    using assms(1) by (simp add: onUpdateRecords_def on_update_record_def mkRecord_def Let_def)
  ultimately show ?thesis by (simp add: Let_def)
qed

theorem session_cache_stale_witness:
  "let r1 = mkRecord (PSession ''s1'' ''u1''); r2 = mkRecord (PSession ''s1'' ''u2'');
       rs = [r1, r2, r2\<lparr>rec_deleted := True\<rparr>]
   in live_payload ''type.googleapis.com/session.Session'' ''s1'' (put_all rs new_backend) = None \<and>
      sessions (onUpdateRecords (test_manager 0) rs) (''u1'', ''s1'') = Some (PSession ''s1'' ''u1'')"
proof -
  have "''u1'' \<noteq> ''u2''" and "\<not> is_closed new_backend" by (simp_all add: new_backend_def)
  from session_cache_stale [OF this, of "''s1''" "test_manager 0"] show ?thesis .
qed

end
